theory Spec2Isabelle
  imports Main "HOL-Library.Word"
begin

section \<open>Outcomes of a call\<close>

text \<open>
  The exception classes of \<^verbatim>\<open>HitoriSolver.cpp\<close>.  \<open>RangeError\<close> is the
  \<^verbatim>\<open>std::range_error\<close> of \<^verbatim>\<open>assertElementRange\<close>, \<open>LogicError\<close> the
  \<^verbatim>\<open>std::logic_error\<close> of \<^verbatim>\<open>linkSets\<close>; the other four are the classes nested in
  \<^verbatim>\<open>Table\<close>.  A call returns, raises, or does not return (\<open>Diverged\<close>).
\<close>

datatype exn =
    RangeError
  | LogicError
  | InvalidShapeException
  | InvalidValueException
  | MultipleStateChangeException
  | NoSolutionExistsException string

datatype 'a result = Returned 'a | Raised exn | Diverged

fun bindR :: "'a result \<Rightarrow> ('a \<Rightarrow> 'b result) \<Rightarrow> 'b result" where
  "bindR (Returned x) f = f x"
| "bindR (Raised e) f = Raised e"
| "bindR Diverged f = Diverged"

text \<open>A \<^verbatim>\<open>for\<close> loop over the list of its index values, leaving at the first exception.\<close>

fun foldR :: "('a \<Rightarrow> 's \<Rightarrow> 's result) \<Rightarrow> 'a list \<Rightarrow> 's \<Rightarrow> 's result" where
  "foldR f [] s = Returned s"
| "foldR f (x # xs) s = bindR (f x s) (foldR f xs)"

section \<open>Machine arithmetic\<close>

type_synonym u32 = "32 word"

text \<open>
  \<open>uadd x d\<close> is the value of the \<^verbatim>\<open>unsigned\<close> sum \<^verbatim>\<open>x + d\<close> of an \<^verbatim>\<open>unsigned\<close> \<open>x\<close>
  and an \<^verbatim>\<open>int\<close> \<open>d\<close>: the sum wraps around at \<open>2 ^ 32\<close>.
\<close>

definition uadd :: "nat \<Rightarrow> int \<Rightarrow> int" where
  "uadd x d = (int x + d) mod 2 ^ 32"

text \<open>\<^verbatim>\<open>static_cast<int>(row * size + column + 1)\<close>, the product and sums being \<^verbatim>\<open>unsigned\<close>.\<close>

definition cellIndex :: "nat \<Rightarrow> nat \<Rightarrow> nat \<Rightarrow> int" where
  "cellIndex sz row column = sint (word_of_nat (row * sz + column + 1) :: u32)"

section \<open>DisjointSets\<close>

text \<open>The class has the one field \<^verbatim>\<open>parents\<close>; an object is that vector.\<close>

definition newDisjointSets :: "nat \<Rightarrow> int list" where
  "newDisjointSets n = replicate n (- 1)"

definition inElementRange :: "int list \<Rightarrow> int \<Rightarrow> bool" where
  "inElementRange parents e \<longleftrightarrow> \<not> (e < 0 \<or> nat e \<ge> length parents)"

text \<open>The two \<^verbatim>\<open>while\<close> loops of \<^verbatim>\<open>findSet\<close>; \<open>None\<close> is a loop that never ends.\<close>

partial_function (option) findRoot :: "int list \<Rightarrow> int \<Rightarrow> int option" where
  "findRoot parents root =
     (if parents ! nat root \<ge> 0 then findRoot parents (parents ! nat root) else Some root)"

partial_function (option) compress :: "int list \<Rightarrow> int \<Rightarrow> int \<Rightarrow> int list option" where
  "compress parents root e =
     (if parents ! nat e \<ge> 0
      then compress (parents[nat e := root]) root (parents ! nat e)
      else Some parents)"

declare findRoot.simps [code]
declare compress.simps [code]

definition findSet :: "int list \<Rightarrow> int \<Rightarrow> (int \<times> int list) result" where
  "findSet parents e =
     (if \<not> inElementRange parents e then Raised RangeError
      else case findRoot parents e of
             None \<Rightarrow> Diverged
           | Some root \<Rightarrow>
               (case compress parents root e of
                  None \<Rightarrow> Diverged
                | Some parents' \<Rightarrow> Returned (root, parents')))"

definition linkSets :: "int list \<Rightarrow> int \<Rightarrow> int \<Rightarrow> int list result" where
  "linkSets parents set1 set2 =
     (if \<not> inElementRange parents set1 \<or> \<not> inElementRange parents set2 then Raised RangeError
      else if parents ! nat set1 \<ge> 0 \<or> parents ! nat set2 \<ge> 0 then Raised LogicError
      else if set1 \<noteq> set2 then
        (let rank1 = - (parents ! nat set1) - 1;
             rank2 = - (parents ! nat set2) - 1
         in if rank1 < rank2 then Returned (parents[nat set1 := set2])
            else if rank2 < rank1 then Returned (parents[nat set2 := set1])
            else Returned ((parents[nat set1 := set2])[nat set2 := parents ! nat set2 - 1]))
      else Returned parents)"

definition unionSets :: "int list \<Rightarrow> int \<Rightarrow> int \<Rightarrow> int list result" where
  "unionSets parents e1 e2 =
     bindR (findSet parents e1) (\<lambda>(root1, parents1).
     bindR (findSet parents1 e2) (\<lambda>(root2, parents2).
       linkSets parents2 root1 root2))"

section \<open>Table\<close>

datatype State = Unknown | Final | Deleted

record Cell =
  getValue :: nat
  getState :: State

record Table =
  size_tab :: nat
  cells :: "Cell list list"
  rowCounts :: "u32 list list"
  columnCounts :: "u32 list list"
  unknownCellCount :: u32
  deletedTrees :: "int list"

subsection \<open>The constructor\<close>

definition incr :: "u32 list list \<Rightarrow> nat \<Rightarrow> nat \<Rightarrow> u32 list list" where
  "incr m i j = m[i := (m ! i)[j := m ! i ! j + 1]]"

definition decr :: "u32 list list \<Rightarrow> nat \<Rightarrow> nat \<Rightarrow> u32 list list" where
  "decr m i j = m[i := (m ! i)[j := m ! i ! j - 1]]"

fun initRow :: "nat \<Rightarrow> nat \<Rightarrow> nat \<Rightarrow> nat list
    \<Rightarrow> Cell list \<times> u32 list list \<times> u32 list list
    \<Rightarrow> (Cell list \<times> u32 list list \<times> u32 list list) result" where
  "initRow sz actRow actColumn [] acc = Returned acc"
| "initRow sz actRow actColumn (v # vs) (rowCells, rc, cc) =
     (if v = 0 \<or> v > sz then Raised InvalidValueException
      else initRow sz actRow (actColumn + 1) vs
             (rowCells @ [\<lparr>getValue = v, getState = Unknown\<rparr>],
              incr rc actRow v, incr cc actColumn v))"

fun initRows :: "nat \<Rightarrow> nat \<Rightarrow> nat list list
    \<Rightarrow> Cell list list \<times> u32 list list \<times> u32 list list
    \<Rightarrow> (Cell list list \<times> u32 list list \<times> u32 list list) result" where
  "initRows sz actRow [] acc = Returned acc"
| "initRows sz actRow (row # rows) (cs, rc, cc) =
     (if length row \<noteq> sz then Raised InvalidShapeException
      else bindR (initRow sz actRow 0 row ([], rc, cc)) (\<lambda>(rowCells, rc', cc').
             initRows sz (actRow + 1) rows (cs @ [rowCells], rc', cc')))"

definition newTable :: "nat list list \<Rightarrow> Table result" where
  "newTable initValues =
     (let sz = unat (word_of_nat (length initValues) :: u32);
          zeros = replicate sz (replicate (sz + 1) (0 :: u32))
      in bindR (initRows sz 0 initValues ([], zeros, zeros)) (\<lambda>(cs, rc, cc).
           Returned \<lparr>size_tab = sz, cells = cs, rowCounts = rc, columnCounts = cc,
                     unknownCellCount = word_of_nat (sz * sz),
                     deletedTrees = newDisjointSets (unat (word_of_nat (sz * sz + 1) :: u32))\<rparr>))"

subsection \<open>Small operations\<close>

definition isSolved :: "Table \<Rightarrow> bool" where
  "isSolved t \<longleftrightarrow> unknownCellCount t = 0"

definition stateAt :: "Table \<Rightarrow> nat \<Rightarrow> nat \<Rightarrow> State" where
  "stateAt t r c = getState (cells t ! r ! c)"

definition valueAt :: "Table \<Rightarrow> nat \<Rightarrow> nat \<Rightarrow> nat" where
  "valueAt t r c = getValue (cells t ! r ! c)"

definition setState :: "Table \<Rightarrow> nat \<Rightarrow> nat \<Rightarrow> State \<Rightarrow> Table" where
  "setState t r c s =
     t\<lparr>cells := (cells t)[r := (cells t ! r)[c := (cells t ! r ! c)\<lparr>getState := s\<rparr>]]\<rparr>"

text \<open>
  The four statements shared by \<^verbatim>\<open>finalizeCell\<close> and \<^verbatim>\<open>deleteCell\<close>: set the state,
  decrement the row count, the column count and \<^verbatim>\<open>unknownCellCount\<close>.
\<close>

definition leaveUnknown :: "Table \<Rightarrow> nat \<Rightarrow> nat \<Rightarrow> State \<Rightarrow> Table" where
  "leaveUnknown t row column s =
     (let v = valueAt t row column in
      (setState t row column s)
        \<lparr>rowCounts := decr (rowCounts t) row v,
         columnCounts := decr (columnCounts t) column v,
         unknownCellCount := unknownCellCount t - 1\<rparr>)"

subsection \<open>finalizeUniqueCells\<close>

definition store :: "u32 list list \<Rightarrow> nat \<Rightarrow> nat \<Rightarrow> u32 \<Rightarrow> u32 list list" where
  "store m i j x = m[i := (m ! i)[j := x]]"

definition finalizeUniqueStep :: "nat \<Rightarrow> nat \<Rightarrow> Table \<Rightarrow> Table" where
  "finalizeUniqueStep r c t =
     (if stateAt t r c = Unknown then
        (let v = valueAt t r c in
         if rowCounts t ! r ! v = 1 \<and> columnCounts t ! c ! v = 1 then
           (setState t r c Final)
             \<lparr>rowCounts := store (rowCounts t) r v 0,
              columnCounts := store (columnCounts t) c v 0,
              unknownCellCount := unknownCellCount t - 1\<rparr>
         else t)
      else t)"

definition finalizeUniqueCells :: "Table \<Rightarrow> Table" where
  "finalizeUniqueCells t =
     fold (\<lambda>r. fold (\<lambda>c. finalizeUniqueStep r c) [0..<size_tab t]) [0..<size_tab t] t"

subsection \<open>finalizeCell and deleteCell\<close>

text \<open>
  The offsets of the three neighbour loops: each starts from a pair \<^verbatim>\<open>(rOffs, cOffs)\<close> and
  turns it by \<^verbatim>\<open>t = rOffs; rOffs = -cOffs; cOffs = t\<close> after each of its four rounds.
\<close>

definition turn :: "int \<times> int \<Rightarrow> int \<times> int" where
  "turn p = (- snd p, fst p)"

definition offsets :: "int \<times> int \<Rightarrow> (int \<times> int) list" where
  "offsets p = [p, turn p, turn (turn p), turn (turn (turn p))]"

text \<open>The test \<^verbatim>\<open>r >= 0 && r < size && c >= 0 && c < size\<close> of the three loops.\<close>

definition inGrid :: "Table \<Rightarrow> int \<Rightarrow> int \<Rightarrow> bool" where
  "inGrid t r c \<longleftrightarrow> r \<ge> 0 \<and> r < int (size_tab t) \<and> c \<ge> 0 \<and> c < int (size_tab t)"

definition hasDeletedNeighbor :: "Table \<Rightarrow> nat \<Rightarrow> nat \<Rightarrow> bool" where
  "hasDeletedNeighbor t row column \<longleftrightarrow>
     list_ex (\<lambda>(rOffs, cOffs).
        let r = uadd row rOffs; c = uadd column cOffs
        in inGrid t r c \<and> stateAt t (nat r) (nat c) = Deleted) (offsets (0, - 1))"

definition onBorder :: "Table \<Rightarrow> nat \<Rightarrow> nat \<Rightarrow> bool" where
  "onBorder t row column \<longleftrightarrow>
     row = 0 \<or> int row = uadd (size_tab t) (- 1) \<or>
     column = 0 \<or> int column = uadd (size_tab t) (- 1)"

definition joinDiagonal :: "Table \<Rightarrow> nat \<Rightarrow> nat \<Rightarrow> int \<times> int \<Rightarrow> int list \<Rightarrow> int list result" where
  "joinDiagonal t row column = (\<lambda>(rOffs, cOffs) ds.
     let r = uadd row rOffs; c = uadd column cOffs;
         cellSet = cellIndex (size_tab t) row column;
         diagonalNeighborSet = cellIndex (size_tab t) (nat r) (nat c)
     in if inGrid t r c \<and> stateAt t (nat r) (nat c) = Deleted then
          bindR (findSet ds diagonalNeighborSet) (\<lambda>(diagonalRoot, ds1).
          bindR (findSet ds1 cellSet) (\<lambda>(cellRoot, ds2).
            if diagonalRoot \<noteq> cellRoot then linkSets ds2 diagonalRoot cellRoot
            else Raised (NoSolutionExistsException ''circular neighbors found'')))
        else Returned ds)"

text \<open>
  The part of \<^verbatim>\<open>deleteCell\<close> that works on \<^verbatim>\<open>deletedTrees\<close>: the union with element 0 for
  a cell of the outer ring, then the loop over the diagonal neighbours.
\<close>

definition joinDeleted :: "Table \<Rightarrow> nat \<Rightarrow> nat \<Rightarrow> int list result" where
  "joinDeleted t row column =
     bindR (if onBorder t row column
            then unionSets (deletedTrees t) 0 (cellIndex (size_tab t) row column)
            else Returned (deletedTrees t))
       (foldR (joinDiagonal t row column) (offsets (- 1, - 1)))"

text \<open>
  The two member functions call each other.  Each body is written once, over the function it
  calls; \<open>finalizeCell\<close> and \<open>deleteCell\<close> then tie the two bodies together.  Their first
  argument bounds the depth of the nested calls: at depth 0 the call has not returned.
\<close>

definition finalizeCellBody ::
    "(Table \<Rightarrow> nat \<Rightarrow> nat \<Rightarrow> Table result) \<Rightarrow> Table \<Rightarrow> nat \<Rightarrow> nat \<Rightarrow> Table result" where
  "finalizeCellBody deleteCell' t row column =
     (if stateAt t row column \<noteq> Unknown then Raised MultipleStateChangeException
      else
        let v = valueAt t row column;
            t1 = leaveUnknown t row column Final
        in bindR
             (if columnCounts t1 ! column ! v > 0 then
                foldR (\<lambda>r t'.
                   if r \<noteq> row \<and> valueAt t' r column = v then
                     (case stateAt t' r column of
                        Final \<Rightarrow> Raised (NoSolutionExistsException
                                   ''multiple finalized values found in a column'')
                      | Unknown \<Rightarrow> deleteCell' t' r column
                      | Deleted \<Rightarrow> Returned t')
                   else Returned t') [0..<size_tab t] t1
              else Returned t1)
             (\<lambda>t2.
                if rowCounts t2 ! row ! v > 0 then
                  foldR (\<lambda>c t'.
                     if c \<noteq> column \<and> valueAt t' row c = v then
                       (case stateAt t' row c of
                          Final \<Rightarrow> Raised (NoSolutionExistsException
                                     ''multiple finalized values found in a row'')
                        | Unknown \<Rightarrow> deleteCell' t' row c
                        | Deleted \<Rightarrow> Returned t')
                     else Returned t') [0..<size_tab t] t2
                else Returned t2))"

definition deleteCellBody ::
    "(Table \<Rightarrow> nat \<Rightarrow> nat \<Rightarrow> Table result) \<Rightarrow> Table \<Rightarrow> nat \<Rightarrow> nat \<Rightarrow> Table result" where
  "deleteCellBody finalizeCell' t row column =
     (if stateAt t row column \<noteq> Unknown then Raised MultipleStateChangeException
      else if hasDeletedNeighbor t row column
        then Raised (NoSolutionExistsException ''deleted neighbor found'')
      else
        bindR (joinDeleted t row column) (\<lambda>ds.
          foldR (\<lambda>(rOffs, cOffs) t'.
             let r = uadd row rOffs; c = uadd column cOffs
             in if inGrid t' r c \<and> stateAt t' (nat r) (nat c) = Unknown
                then finalizeCell' t' (nat r) (nat c)
                else Returned t')
            (offsets (0, 1))
            (leaveUnknown (t\<lparr>deletedTrees := ds\<rparr>) row column Deleted)))"

fun finalizeCell :: "nat \<Rightarrow> Table \<Rightarrow> nat \<Rightarrow> nat \<Rightarrow> Table result"
  and deleteCell :: "nat \<Rightarrow> Table \<Rightarrow> nat \<Rightarrow> nat \<Rightarrow> Table result" where
  "finalizeCell 0 t row column = Diverged"
| "finalizeCell (Suc n) t row column = finalizeCellBody (deleteCell n) t row column"
| "deleteCell 0 t row column = Diverged"
| "deleteCell (Suc n) t row column = deleteCellBody (finalizeCell n) t row column"

subsection \<open>getFinalizeCandidatePos\<close>

definition candidateStep :: "Table \<Rightarrow> nat \<Rightarrow> nat \<Rightarrow> nat \<Rightarrow> nat \<times> nat \<times> u32 \<Rightarrow> nat \<times> nat \<times> u32" where
  "candidateStep t r c v = (\<lambda>(rMax, cMax, maxCount).
     if stateAt t r c = Unknown then
       (let actCount = rowCounts t ! r ! v + columnCounts t ! c ! v - 1
        in if actCount > maxCount then (r, c, actCount) else (rMax, cMax, maxCount))
     else (rMax, cMax, maxCount))"

definition getFinalizeCandidatePos :: "Table \<Rightarrow> nat \<times> nat" where
  "getFinalizeCandidatePos t =
     (case fold (\<lambda>r. fold (\<lambda>c. fold (candidateStep t r c) [1..<Suc (size_tab t)])
                  [0..<size_tab t]) [0..<size_tab t] (0, 0, 0)
      of (rMax, cMax, maxCount) \<Rightarrow> (rMax, cMax))"

section \<open>solve\<close>

text \<open>
  The \<^verbatim>\<open>try\<close> block holds the copy, \<^verbatim>\<open>finalizeCell\<close> on it and the recursive call; the
  handler works on \<^verbatim>\<open>t\<close>, which the block has not touched.
\<close>

fun solve :: "nat \<Rightarrow> Table \<Rightarrow> Table result" where
  "solve 0 t0 = Diverged"
| "solve (Suc n) t0 =
     (let t = finalizeUniqueCells t0 in
      if isSolved t then Returned t
      else
        (case getFinalizeCandidatePos t of (row, column) \<Rightarrow>
           (case bindR (finalizeCell n t row column) (solve n) of
              Raised (NoSolutionExistsException reason) \<Rightarrow>
                bindR (deleteCell n t row column) (solve n)
            | res \<Rightarrow> res)))"

section \<open>The solution invariant\<close>

text \<open>
  What the specification asks of a solved board.  Its first part: in every row and every
  column the values of the \<open>Final\<close> cells are pairwise different.
\<close>

definition finalValues :: "Cell list \<Rightarrow> nat list" where
  "finalValues line = map getValue (filter (\<lambda>x. getState x = Final) line)"

definition columnOf :: "Table \<Rightarrow> nat \<Rightarrow> Cell list" where
  "columnOf t c = map (\<lambda>row. row ! c) (cells t)"

definition noRepeatedFinal :: "Table \<Rightarrow> bool" where
  "noRepeatedFinal t \<longleftrightarrow>
     list_all (\<lambda>row. distinct (finalValues row)) (cells t) \<and>
     list_all (\<lambda>c. distinct (finalValues (columnOf t c))) [0..<size_tab t]"

section \<open>Well-formed boards\<close>

text \<open>
  The shape the constructor gives a board and every member function keeps: \<open>size\<close> is an
  \<^verbatim>\<open>unsigned\<close>, \<open>cells\<close> is \<open>size\<close> by \<open>size\<close> with values from 1 to \<open>size\<close>, and each of the
  two count tables has \<open>size\<close> rows of \<open>size + 1\<close> counters.
\<close>

definition shapeOk :: "Table \<Rightarrow> bool" where
  "shapeOk t \<longleftrightarrow>
     size_tab t < 2 ^ 32 \<and>
     length (cells t) = size_tab t \<and>
     list_all (\<lambda>row. length row = size_tab t \<and>
                list_all (\<lambda>x. 0 < getValue x \<and> getValue x \<le> size_tab t) row) (cells t) \<and>
     length (rowCounts t) = size_tab t \<and>
     list_all (\<lambda>l. length l = size_tab t + 1) (rowCounts t) \<and>
     length (columnCounts t) = size_tab t \<and>
     list_all (\<lambda>l. length l = size_tab t + 1) (columnCounts t)"

text \<open>The test of \<^verbatim>\<open>finalizeUniqueCells\<close> on one cell, and the cells in the order it visits them.\<close>

definition uniqueAt :: "Table \<Rightarrow> nat \<Rightarrow> nat \<Rightarrow> bool" where
  "uniqueAt t r c \<longleftrightarrow> stateAt t r c = Unknown \<and>
     rowCounts t ! r ! valueAt t r c = 1 \<and> columnCounts t ! c ! valueAt t r c = 1"

definition positions :: "Table \<Rightarrow> (nat \<times> nat) list" where
  "positions t = List.product [0..<size_tab t] [0..<size_tab t]"

section \<open>The scan of getFinalizeCandidatePos, as the specification words it\<close>

text \<open>
  The score of a cell and a value, in \<^verbatim>\<open>unsigned\<close> arithmetic, and the list of the pairs of
  an \<open>Unknown\<close> cell and a value between 1 and \<open>size\<close>, in row-major order of the cells and
  for each cell in ascending order of the values.  \<open>keepMax\<close> is the body of the loop on one
  such pair.
\<close>

definition scoreOf :: "Table \<Rightarrow> (nat \<times> nat) \<times> nat \<Rightarrow> u32" where
  "scoreOf t = (\<lambda>((r, c), v). rowCounts t ! r ! v + columnCounts t ! c ! v - 1)"

definition scanned :: "Table \<Rightarrow> ((nat \<times> nat) \<times> nat) list" where
  "scanned t = filter (\<lambda>((r, c), v). stateAt t r c = Unknown)
                 (List.product (positions t) [1..<Suc (size_tab t)])"

definition keepMax :: "Table \<Rightarrow> (nat \<times> nat) \<times> nat \<Rightarrow> nat \<times> nat \<times> u32 \<Rightarrow> nat \<times> nat \<times> u32" where
  "keepMax t x = (\<lambda>(rMax, cMax, maxCount).
     if scoreOf t x > maxCount then (fst (fst x), snd (fst x), scoreOf t x)
     else (rMax, cMax, maxCount))"

section \<open>Exception classes and example boards\<close>

text \<open>
  \<open>isNoSolution\<close> holds of the one class the handler of \<open>solve\<close> names.  The two boards are
  what the constructor builds from the matrices \<open>1 2 / 2 2\<close> and \<open>1 3 1 / 1 2 1 / 1 1 1\<close>;
  they are the concrete inputs of the examples below.
\<close>

definition isNoSolution :: "exn \<Rightarrow> bool" where
  "isNoSolution e = (case e of NoSolutionExistsException reason \<Rightarrow> True | _ \<Rightarrow> False)"

definition board22 :: Table where
  "board22 =
     \<lparr>size_tab = 2,
      cells = [[\<lparr>getValue = 1, getState = Unknown\<rparr>, \<lparr>getValue = 2, getState = Unknown\<rparr>],
               [\<lparr>getValue = 2, getState = Unknown\<rparr>, \<lparr>getValue = 2, getState = Unknown\<rparr>]],
      rowCounts = [[0, 1, 1], [0, 0, 2]],
      columnCounts = [[0, 1, 1], [0, 0, 2]],
      unknownCellCount = 4,
      deletedTrees = [- 1, - 1, - 1, - 1, - 1]\<rparr>"

definition board131 :: Table where
  "board131 =
     \<lparr>size_tab = 3,
      cells =
        [[\<lparr>getValue = 1, getState = Unknown\<rparr>, \<lparr>getValue = 3, getState = Unknown\<rparr>,
          \<lparr>getValue = 1, getState = Unknown\<rparr>],
         [\<lparr>getValue = 1, getState = Unknown\<rparr>, \<lparr>getValue = 2, getState = Unknown\<rparr>,
          \<lparr>getValue = 1, getState = Unknown\<rparr>],
         [\<lparr>getValue = 1, getState = Unknown\<rparr>, \<lparr>getValue = 1, getState = Unknown\<rparr>,
          \<lparr>getValue = 1, getState = Unknown\<rparr>]],
      rowCounts = [[0, 2, 0, 1], [0, 2, 1, 0], [0, 3, 0, 0]],
      columnCounts = [[0, 3, 0, 0], [0, 1, 1, 1], [0, 3, 0, 0]],
      unknownCellCount = 9,
      deletedTrees = [- 1, - 1, - 1, - 1, - 1, - 1, - 1, - 1, - 1, - 1]\<rparr>"

section \<open>The invariant of a board\<close>

text \<open>
  The numbers of \<open>Unknown\<close> cells the counters stand for: those of a given value in a row,
  those of a given value in a column, and those of the whole board.  \<open>countsOk\<close> says that
  every row and column counter holds its number; \<open>unknownOk\<close> that \<^verbatim>\<open>unknownCellCount\<close> holds
  the number of \<open>Unknown\<close> cells, as an \<^verbatim>\<open>unsigned\<close>.  \<open>rootIn ps k e r\<close> says that \<open>k\<close> parent
  links lead from element \<open>e\<close> to the root \<open>r\<close>, and \<open>forestOk\<close> that every element has a
  root.  \<open>wellFormed\<close> is their conjunction with \<open>shapeOk\<close>.  \<open>outcome P D res\<close> reads: if the
  call returned, \<open>P\<close> holds of what it returned, and if it did not return within the depth,
  \<open>D\<close> holds.  \<open>cascadeSpec m f\<close> is what is shown of \<open>finalizeCell\<close> and \<open>deleteCell\<close> at depth
  \<open>m\<close>: on a well-formed board they return a well-formed board of the same size with fewer
  \<open>Unknown\<close> cells, and the depth \<open>m\<close> is exhausted only on a board with at least \<open>m\<close>
  \<open>Unknown\<close> cells.
\<close>

definition unknownInRow :: "Table \<Rightarrow> nat \<Rightarrow> nat \<Rightarrow> nat" where
  "unknownInRow t r v =
     length (filter (\<lambda>c. stateAt t r c = Unknown \<and> valueAt t r c = v) [0..<size_tab t])"

definition unknownInColumn :: "Table \<Rightarrow> nat \<Rightarrow> nat \<Rightarrow> nat" where
  "unknownInColumn t c v =
     length (filter (\<lambda>r. stateAt t r c = Unknown \<and> valueAt t r c = v) [0..<size_tab t])"

definition unknownCells :: "Table \<Rightarrow> nat" where
  "unknownCells t = length (filter (\<lambda>(r, c). stateAt t r c = Unknown) (positions t))"

definition countsOk :: "Table \<Rightarrow> bool" where
  "countsOk t \<longleftrightarrow>
     list_all (\<lambda>i. list_all (\<lambda>v.
         unat (rowCounts t ! i ! v) = unknownInRow t i v \<and>
         unat (columnCounts t ! i ! v) = unknownInColumn t i v) [0..<Suc (size_tab t)])
       [0..<size_tab t]"

definition unknownOk :: "Table \<Rightarrow> bool" where
  "unknownOk t \<longleftrightarrow> unknownCellCount t = word_of_nat (unknownCells t)"

fun rootIn :: "int list \<Rightarrow> nat \<Rightarrow> int \<Rightarrow> int \<Rightarrow> bool" where
  "rootIn ps 0 e r \<longleftrightarrow> inElementRange ps e \<and> ps ! nat e < 0 \<and> r = e"
| "rootIn ps (Suc k) e r \<longleftrightarrow> inElementRange ps e \<and> ps ! nat e \<ge> 0 \<and> rootIn ps k (ps ! nat e) r"

definition forestOk :: "int list \<Rightarrow> bool" where
  "forestOk ps \<longleftrightarrow> (\<forall>e. inElementRange ps e \<longrightarrow> (\<exists>k r. rootIn ps k e r))"

definition wellFormed :: "Table \<Rightarrow> bool" where
  "wellFormed t \<longleftrightarrow> shapeOk t \<and> countsOk t \<and> unknownOk t \<and> forestOk (deletedTrees t)"

definition outcome :: "('a \<Rightarrow> bool) \<Rightarrow> bool \<Rightarrow> 'a result \<Rightarrow> bool" where
  "outcome P D res = (case res of Returned x \<Rightarrow> P x | Raised e \<Rightarrow> True | Diverged \<Rightarrow> D)"

definition cascadeSpec :: "nat \<Rightarrow> (Table \<Rightarrow> nat \<Rightarrow> nat \<Rightarrow> Table result) \<Rightarrow> bool" where
  "cascadeSpec m f \<longleftrightarrow>
     (\<forall>t r c. wellFormed t \<and> r < size_tab t \<and> c < size_tab t \<longrightarrow>
        outcome (\<lambda>t'. wellFormed t' \<and> size_tab t' = size_tab t \<and> unknownCells t' < unknownCells t)
          (m \<le> unknownCells t) (f t r c))"

abbreviation (input) mkCell :: "nat \<Rightarrow> Cell" where
  "mkCell v \<equiv> \<lparr>getValue = v, getState = Unknown\<rparr>"

section \<open>Exceptions a call can raise, and boards that can be reached\<close>

text \<open>
  \<open>raisesOnly S res\<close>: if the call raised, the exception is one of \<open>S\<close>.  \<open>reachable\<close> holds
  of the boards the constructor builds (from a matrix of fewer than \<open>2 ^ 32\<close> rows, the
  range of the \<^verbatim>\<open>unsigned\<close> size) and of those that \<open>finalizeUniqueCells\<close>, \<open>finalizeCell\<close> and
  \<open>deleteCell\<close>, called at a position of the grid, return from a reachable board.
\<close>

definition raisesOnly :: "exn set \<Rightarrow> 'a result \<Rightarrow> bool" where
  "raisesOnly S res \<longleftrightarrow> (\<forall>e. res = Raised e \<longrightarrow> e \<in> S)"

inductive reachable :: "Table \<Rightarrow> bool" where
  fresh: "newTable initValues = Returned t \<Longrightarrow> length initValues < 2 ^ 32 \<Longrightarrow> reachable t"
| unique: "reachable t \<Longrightarrow> reachable (finalizeUniqueCells t)"
| finalize: "reachable t \<Longrightarrow> row < size_tab t \<Longrightarrow> column < size_tab t \<Longrightarrow>
             finalizeCell n t row column = Returned t' \<Longrightarrow> reachable t'"
| delete: "reachable t \<Longrightarrow> row < size_tab t \<Longrightarrow> column < size_tab t \<Longrightarrow>
           deleteCell n t row column = Returned t' \<Longrightarrow> reachable t'"

section \<open>The checks of deleteCell, as the specification words them\<close>

text \<open>
  The neighbours of a cell, in exact arithmetic: \<open>neighborsAt\<close> keeps the offsets that lead to
  a cell of the grid and gives those cells, in the order of the offsets.  \<open>orthogonalNeighbors\<close>
  and \<open>diagonalNeighbors\<close> list them in the order in which the first two loops of
  \<^verbatim>\<open>deleteCell\<close> visit them, and \<open>cellsIn t s ps\<close> are the cells of \<open>ps\<close> in state \<open>s\<close>.
  \<open>treeElement\<close> is the element of a cell in \<^verbatim>\<open>deletedTrees\<close> (element 0 stands for the border)
  and \<open>onOuterRing\<close> the test for the union with element 0.  \<open>finalizeNeighbors n ps t\<close>
  finalizes, one after the other, the cells of \<open>ps\<close> that are \<open>Unknown\<close> at their turn.
  \<open>boardChain\<close> is what the constructor builds from the matrix \<open>1 2 3 / 2 3 2 / 3 1 1\<close>, and
  \<open>boardRing\<close> what \<^verbatim>\<open>deleteCell(0, 0)\<close> and \<^verbatim>\<open>deleteCell(0, 2)\<close> leave of the board built
  from \<open>1 2 3 / 2 3 1 / 3 1 2\<close>.
\<close>

definition neighborsAt :: "Table \<Rightarrow> nat \<Rightarrow> nat \<Rightarrow> (int \<times> int) list \<Rightarrow> (nat \<times> nat) list" where
  "neighborsAt t row column offs =
     map (\<lambda>(dr, dc). (nat (int row + dr), nat (int column + dc)))
       (filter (\<lambda>(dr, dc). 0 \<le> int row + dr \<and> int row + dr < int (size_tab t) \<and>
                           0 \<le> int column + dc \<and> int column + dc < int (size_tab t)) offs)"

definition orthogonalNeighbors :: "Table \<Rightarrow> nat \<Rightarrow> nat \<Rightarrow> (nat \<times> nat) list" where
  "orthogonalNeighbors t row column = neighborsAt t row column [(0, - 1), (1, 0), (0, 1), (- 1, 0)]"

definition diagonalNeighbors :: "Table \<Rightarrow> nat \<Rightarrow> nat \<Rightarrow> (nat \<times> nat) list" where
  "diagonalNeighbors t row column = neighborsAt t row column [(- 1, - 1), (1, - 1), (1, 1), (- 1, 1)]"

definition cellsIn :: "Table \<Rightarrow> State \<Rightarrow> (nat \<times> nat) list \<Rightarrow> (nat \<times> nat) list" where
  "cellsIn t s ps = filter (\<lambda>(r, c). stateAt t r c = s) ps"

definition treeElement :: "Table \<Rightarrow> nat \<times> nat \<Rightarrow> int" where
  "treeElement t = (\<lambda>(r, c). int (r * size_tab t + c + 1))"

definition onOuterRing :: "Table \<Rightarrow> nat \<Rightarrow> nat \<Rightarrow> bool" where
  "onOuterRing t row column \<longleftrightarrow>
     row = 0 \<or> row + 1 = size_tab t \<or> column = 0 \<or> column + 1 = size_tab t"

definition finalizeNeighbors :: "nat \<Rightarrow> (nat \<times> nat) list \<Rightarrow> Table \<Rightarrow> Table result" where
  "finalizeNeighbors n ps t =
     foldR (\<lambda>(r, c) t'. if stateAt t' r c = Unknown then finalizeCell n t' r c else Returned t') ps t"

definition boardChain :: Table where
  "boardChain =
     \<lparr>size_tab = 3,
      cells = [[mkCell 1, mkCell 2, mkCell 3], [mkCell 2, mkCell 3, mkCell 2],
               [mkCell 3, mkCell 1, mkCell 1]],
      rowCounts = [[0, 1, 1, 1], [0, 0, 2, 1], [0, 2, 0, 1]],
      columnCounts = [[0, 1, 1, 1], [0, 1, 1, 1], [0, 1, 1, 1]],
      unknownCellCount = 9,
      deletedTrees = [- 1, - 1, - 1, - 1, - 1, - 1, - 1, - 1, - 1, - 1]\<rparr>"

definition boardRing :: Table where
  "boardRing =
     \<lparr>size_tab = 3,
      cells = [[\<lparr>getValue = 1, getState = Deleted\<rparr>, \<lparr>getValue = 2, getState = Final\<rparr>,
                \<lparr>getValue = 3, getState = Deleted\<rparr>],
               [\<lparr>getValue = 2, getState = Final\<rparr>, mkCell 3, \<lparr>getValue = 1, getState = Final\<rparr>],
               [mkCell 3, mkCell 1, mkCell 2]],
      rowCounts = [[0, 0, 0, 0], [0, 0, 0, 1], [0, 1, 1, 1]],
      columnCounts = [[0, 0, 0, 1], [0, 1, 0, 1], [0, 0, 1, 0]],
      unknownCellCount = 4,
      deletedTrees = [1, - 2, - 1, 1, - 1, - 1, - 1, - 1, - 1, - 1]\<rparr>"

section \<open>Properties\<close>

subsection \<open>The one-cell board\<close>

text \<open>
  C9 (as stated, refuted).  The constructor refuses the matrix \<open>[[5]]\<close>: its value 5 is
  larger than the size 1, and \<^verbatim>\<open>InvalidValueException\<close> is raised before any solving.
\<close>

theorem newTable_five_raises: "newTable [[5]] = Raised InvalidValueException"
  by code_simp

text \<open>
  C9 (amended).  The matrix \<open>[[1]]\<close> is accepted, and \<open>solve\<close> returns from its first
  call, with no nested call at all: the single cell is \<open>Final\<close> with value 1 and no cell is
  \<open>Deleted\<close>.
\<close>

theorem solve_one_by_one:
  "bindR (newTable [[1]]) (solve (Suc n)) =
     Returned \<lparr>size_tab = 1, cells = [[\<lparr>getValue = 1, getState = Final\<rparr>]],
               rowCounts = [[0, 0]], columnCounts = [[0, 0]], unknownCellCount = 0,
               deletedTrees = [- 1, - 1]\<rparr>"
  by code_simp

subsection \<open>Reading and writing a board\<close>

lemma shapeOk_cells:
  "shapeOk t \<Longrightarrow> length (cells t) = size_tab t"
  "shapeOk t \<Longrightarrow> r < size_tab t \<Longrightarrow> length (cells t ! r) = size_tab t"
  by (auto simp: shapeOk_def list_all_length)

lemma shapeOk_value:
  "shapeOk t \<Longrightarrow> r < size_tab t \<Longrightarrow> c < size_tab t \<Longrightarrow> 0 < valueAt t r c"
  "shapeOk t \<Longrightarrow> r < size_tab t \<Longrightarrow> c < size_tab t \<Longrightarrow> valueAt t r c \<le> size_tab t"
  by (auto simp: shapeOk_def list_all_length valueAt_def)

lemma shapeOk_counts:
  "shapeOk t \<Longrightarrow> length (rowCounts t) = size_tab t"
  "shapeOk t \<Longrightarrow> length (columnCounts t) = size_tab t"
  "shapeOk t \<Longrightarrow> r < size_tab t \<Longrightarrow> length (rowCounts t ! r) = size_tab t + 1"
  "shapeOk t \<Longrightarrow> r < size_tab t \<Longrightarrow> length (columnCounts t ! r) = size_tab t + 1"
  by (auto simp: shapeOk_def list_all_length)

lemma nth2_update:
  "m[i := (m ! i)[j := x]] ! i' ! j' =
     (if i' = i \<and> j' = j \<and> i < length m \<and> j < length (m ! i) then x else m ! i' ! j')"
proof (cases "i < length m")
  case True
  then show ?thesis
    by (cases "i' = i"; cases "j' = j"; cases "j < length (m ! i)"; simp add: list_update_beyond)
next
  case False
  then show ?thesis by (simp add: list_update_beyond)
qed

lemma length2_update:
  "length (m[i := (m ! i)[j := x]]) = length m"
  "length (m[i := (m ! i)[j := x]] ! i') = length (m ! i')"
proof -
  show "length (m[i := (m ! i)[j := x]]) = length m" by simp
  show "length (m[i := (m ! i)[j := x]] ! i') = length (m ! i')"
    by (cases "i < length m"; cases "i' = i"; simp add: list_update_beyond)
qed

lemma list_all_update2:
  "list_all (\<lambda>l. length l = k) m \<Longrightarrow> list_all (\<lambda>l. length l = k) (m[i := (m ! i)[j := x]])"
  unfolding list_all_length length2_update by simp

lemma stateAt_setState:
  "stateAt (setState t r c s) r' c' =
     (if r' = r \<and> c' = c \<and> r < length (cells t) \<and> c < length (cells t ! r) then s
      else stateAt t r' c')"
  by (simp add: stateAt_def setState_def nth2_update)

lemma valueAt_setState: "valueAt (setState t r c s) r' c' = valueAt t r' c'"
  by (simp add: valueAt_def setState_def nth2_update)

lemma setState_fields:
  "size_tab (setState t r c s) = size_tab t"
  "rowCounts (setState t r c s) = rowCounts t"
  "columnCounts (setState t r c s) = columnCounts t"
  "unknownCellCount (setState t r c s) = unknownCellCount t"
  "deletedTrees (setState t r c s) = deletedTrees t"
  by (simp_all add: setState_def)

lemma cells_setState_length:
  "length (cells (setState t r c s)) = length (cells t)"
  "length (cells (setState t r c s) ! r') = length (cells t ! r')"
  by (simp_all add: setState_def length2_update)

lemma cells_setState_value:
  "getValue (cells (setState t r c s) ! r' ! c') = getValue (cells t ! r' ! c')"
  using valueAt_setState[of t r c s r' c'] by (simp add: valueAt_def)

lemma shapeOk_setState: "shapeOk t \<Longrightarrow> shapeOk (setState t r c s)"
  unfolding shapeOk_def list_all_length
  by (simp add: setState_fields cells_setState_length cells_setState_value)

lemma shapeOk_counts_update:
  "shapeOk t \<Longrightarrow>
   shapeOk (t\<lparr>rowCounts := (rowCounts t)[i := (rowCounts t ! i)[j := x]],
             columnCounts := (columnCounts t)[i' := (columnCounts t ! i')[j' := x']],
             unknownCellCount := u\<rparr>)"
  unfolding shapeOk_def by (simp add: list_all_update2)

lemma finalizeUniqueStep_unfold:
  "finalizeUniqueStep r c t =
     (if uniqueAt t r c then
        (setState t r c Final)\<lparr>rowCounts := store (rowCounts t) r (valueAt t r c) 0,
          columnCounts := store (columnCounts t) c (valueAt t r c) 0,
          unknownCellCount := unknownCellCount t - 1\<rparr>
      else t)"
  by (simp add: finalizeUniqueStep_def uniqueAt_def Let_def)

lemma finalizeUniqueStep_size [simp]: "size_tab (finalizeUniqueStep r c t) = size_tab t"
  by (simp add: finalizeUniqueStep_unfold setState_fields)

lemma shapeOk_finalizeUniqueStep: "shapeOk t \<Longrightarrow> shapeOk (finalizeUniqueStep r c t)"
  using shapeOk_counts_update[OF shapeOk_setState, of t]
  by (simp add: finalizeUniqueStep_unfold store_def setState_fields)

lemma finalizeUniqueStep_state:
  assumes "shapeOk t" "r' < size_tab t" "c' < size_tab t"
  shows "stateAt (finalizeUniqueStep r' c' t) r c =
     (if uniqueAt t r' c' \<and> r = r' \<and> c = c' then Final else stateAt t r c)"
proof -
  have X: "stateAt ((setState t r' c' Final)\<lparr>rowCounts := x, columnCounts := y, unknownCellCount := z\<rparr>) r c
      = stateAt (setState t r' c' Final) r c" for x y z r c
    by (simp add: stateAt_def)
  show ?thesis
    using assms by (simp add: finalizeUniqueStep_unfold X stateAt_setState shapeOk_cells)
qed

lemma finalizeUniqueStep_value:
  "valueAt (finalizeUniqueStep r' c' t) r c = valueAt t r c"
proof -
  have X: "valueAt ((setState t r' c' Final)\<lparr>rowCounts := x, columnCounts := y, unknownCellCount := z\<rparr>) r c
      = valueAt (setState t r' c' Final) r c" for x y z
    by (simp add: valueAt_def)
  show ?thesis
    by (simp add: finalizeUniqueStep_unfold X valueAt_setState)
qed

lemma finalizeUniqueStep_counts:
  assumes "shapeOk t" "r' < size_tab t" "c' < size_tab t"
  shows "rowCounts (finalizeUniqueStep r' c' t) ! r ! v =
           (if uniqueAt t r' c' \<and> r = r' \<and> v = valueAt t r' c' then 0 else rowCounts t ! r ! v)"
    and "columnCounts (finalizeUniqueStep r' c' t) ! c ! v =
           (if uniqueAt t r' c' \<and> c = c' \<and> v = valueAt t r' c' then 0 else columnCounts t ! c ! v)"
  using assms shapeOk_value(2)[OF assms]
  by (simp_all add: finalizeUniqueStep_unfold store_def nth2_update shapeOk_counts setState_fields)

lemma uniqueAt_after_step:
  assumes "shapeOk t" "r' < size_tab t" "c' < size_tab t"
  shows "uniqueAt (finalizeUniqueStep r' c' t) r c \<Longrightarrow> uniqueAt t r c"
  unfolding uniqueAt_def finalizeUniqueStep_state[OF assms] finalizeUniqueStep_value
    finalizeUniqueStep_counts[OF assms]
  by (auto split: if_splits)

lemma not_uniqueAt_own_step:
  assumes "shapeOk t" "r < size_tab t" "c < size_tab t"
  shows "\<not> uniqueAt (finalizeUniqueStep r c t) r c"
proof
  assume u: "uniqueAt (finalizeUniqueStep r c t) r c"
  then have "uniqueAt t r c" by (rule uniqueAt_after_step[OF assms])
  then have "stateAt (finalizeUniqueStep r c t) r c = Final"
    by (simp add: finalizeUniqueStep_state[OF assms])
  with u show False by (simp add: uniqueAt_def)
qed


subsection \<open>finalizeUniqueCells\<close>

lemma fold_nested_product:
  "fold (\<lambda>r. fold (f r) cs) rs = fold (\<lambda>(r, c). f r c) (List.product rs cs)"
proof (induction rs)
  case Nil
  then show ?case by simp
next
  case (Cons r rs)
  have "fold (\<lambda>(r, c). f r c) (map (Pair r) cs) = fold (f r) cs"
    by (simp add: fold_map comp_def)
  with Cons show ?case by (simp add: fun_eq_iff)
qed

lemma finalizeUniqueCells_positions:
  "finalizeUniqueCells t = fold (\<lambda>(r, c). finalizeUniqueStep r c) (positions t) t"
  by (simp add: finalizeUniqueCells_def positions_def fold_nested_product)

lemma fold_step_size [simp]:
  "size_tab (fold (\<lambda>(r, c). finalizeUniqueStep r c) ps t) = size_tab t"
  by (induction ps arbitrary: t) (auto)

lemma fold_step_shapeOk:
  "shapeOk t \<Longrightarrow> shapeOk (fold (\<lambda>(r, c). finalizeUniqueStep r c) ps t)"
  by (induction ps arbitrary: t) (auto simp: shapeOk_finalizeUniqueStep)

lemma fold_step_no_unique:
  assumes "shapeOk t" "\<forall>(r, c) \<in> set ps. r < size_tab t \<and> c < size_tab t"
  shows "\<forall>(r, c) \<in> set ps. \<not> uniqueAt (fold (\<lambda>(r, c). finalizeUniqueStep r c) ps t) r c"
  using assms
proof (induction ps arbitrary: t rule: rev_induct)
  case Nil
  then show ?case by simp
next
  case (snoc p ps)
  obtain r' c' where p: "p = (r', c')" by (cases p)
  let ?t' = "fold (\<lambda>(r, c). finalizeUniqueStep r c) ps t"
  have sh: "shapeOk ?t'" using snoc.prems by (simp add: fold_step_shapeOk)
  have rg: "r' < size_tab ?t'" "c' < size_tab ?t'" using snoc.prems p by auto
  have old: "\<forall>(r, c) \<in> set ps. \<not> uniqueAt ?t' r c"
    using snoc.IH[of t] snoc.prems by auto
  have "\<not> uniqueAt (finalizeUniqueStep r' c' ?t') r c" if "(r, c) \<in> set (ps @ [p])" for r c
  proof (cases "(r, c) = p")
    case True
    then show ?thesis using p not_uniqueAt_own_step[OF sh rg] by simp
  next
    case False
    with that old have "\<not> uniqueAt ?t' r c" by auto
    then show ?thesis using uniqueAt_after_step[OF sh rg] by blast
  qed
  then show ?case by (auto simp: p)
qed

lemma fold_step_id:
  "\<forall>(r, c) \<in> set ps. \<not> uniqueAt t r c \<Longrightarrow> fold (\<lambda>(r, c). finalizeUniqueStep r c) ps t = t"
  by (induction ps) (auto simp: finalizeUniqueStep_unfold)

text \<open>
  C8.  On a board of the shape above, a second run of \<open>finalizeUniqueCells\<close> right after a
  first one leaves the whole board as it is: no cell state, no row or column count and not
  \<open>unknownCellCount\<close> is changed by it.
\<close>

theorem finalizeUniqueCells_idempotent:
  assumes "shapeOk t"
  shows "finalizeUniqueCells (finalizeUniqueCells t) = finalizeUniqueCells t"
proof -
  let ?t' = "finalizeUniqueCells t"
  have ps: "positions ?t' = positions t"
    by (simp add: positions_def finalizeUniqueCells_positions)
  have "\<forall>(r, c) \<in> set (positions t). r < size_tab t \<and> c < size_tab t"
    by (auto simp: positions_def)
  from fold_step_no_unique[OF assms this]
  have "\<forall>(r, c) \<in> set (positions t). \<not> uniqueAt ?t' r c"
    by (simp add: finalizeUniqueCells_positions)
  then have "fold (\<lambda>(r, c). finalizeUniqueStep r c) (positions t) ?t' = ?t'"
    by (rule fold_step_id)
  then show ?thesis
    using ps finalizeUniqueCells_positions[of ?t'] by simp
qed

theorem finalizeUniqueCells_idempotent_witness:
  "shapeOk board22 \<and>
   finalizeUniqueCells (finalizeUniqueCells board22) = finalizeUniqueCells board22 \<and>
   unknownCellCount (finalizeUniqueCells board22) = 3"
proof -
  have sh: "shapeOk board22" by (simp add: shapeOk_def board22_def)
  have "unknownCellCount (finalizeUniqueCells board22) = 3" by code_simp
  with sh finalizeUniqueCells_idempotent[OF sh] show ?thesis by blast
qed

subsection \<open>getFinalizeCandidatePos\<close>

lemma fold_filter_if:
  "fold (\<lambda>x. if P x then f x else id) xs = fold f (filter P xs)"
  by (induction xs) (auto simp: fun_eq_iff)

lemma candidateStep_keepMax:
  "candidateStep t r c v = (if stateAt t r c = Unknown then keepMax t ((r, c), v) else id)"
  by (auto simp: candidateStep_def keepMax_def scoreOf_def Let_def fun_eq_iff)

lemma getFinalizeCandidatePos_scanned:
  "getFinalizeCandidatePos t =
     (case fold (keepMax t) (scanned t) (0, 0, 0) of (rMax, cMax, maxCount) \<Rightarrow> (rMax, cMax))"
proof -
  let ?vs = "[1..<Suc (size_tab t)]"
  let ?H = "\<lambda>p. candidateStep t (fst p) (snd p)"
  have "fold (\<lambda>r. fold (\<lambda>c. fold (candidateStep t r c) ?vs) [0..<size_tab t]) [0..<size_tab t]
      = fold (\<lambda>(r, c). fold (candidateStep t r c) ?vs) (positions t)"
    unfolding positions_def by (rule fold_nested_product)
  also have "(\<lambda>(r, c). fold (candidateStep t r c) ?vs) = (\<lambda>p. fold (?H p) ?vs)"
    by (rule ext) (simp only: case_prod_beta)
  also have "fold (\<lambda>p. fold (?H p) ?vs) (positions t)
      = fold (\<lambda>(p, v). ?H p v) (List.product (positions t) ?vs)"
    by (rule fold_nested_product)
  also have "(\<lambda>(p, v). ?H p v)
      = (\<lambda>x. if (\<lambda>((r, c), v). stateAt t r c = Unknown) x then keepMax t x else id)"
    by (auto simp: candidateStep_keepMax fun_eq_iff)
  finally show ?thesis
    unfolding getFinalizeCandidatePos_def scanned_def fold_filter_if by simp
qed

lemma fold_keepMax:
  "(case fold (keepMax t) xs (rI, cI, mI) of (rMax, cMax, maxCount) \<Rightarrow>
      ((\<forall>x \<in> set xs. scoreOf t x \<le> mI) \<and> (rMax, cMax, maxCount) = (rI, cI, mI)) \<or>
      (\<exists>i < length xs. (rMax, cMax) = fst (xs ! i) \<and> maxCount = scoreOf t (xs ! i) \<and> mI < maxCount \<and>
         (\<forall>j < length xs. scoreOf t (xs ! j) \<le> maxCount) \<and>
         (\<forall>j < i. scoreOf t (xs ! j) < maxCount)))"
proof (induction xs rule: rev_induct)
  case Nil
  then show ?case by simp
next
  case (snoc x xs)
  obtain rM cM mC where f: "fold (keepMax t) xs (rI, cI, mI) = (rM, cM, mC)"
    by (cases "fold (keepMax t) xs (rI, cI, mI)") auto
  from snoc[unfolded f] have IH:
    "((\<forall>x \<in> set xs. scoreOf t x \<le> mI) \<and> (rM, cM, mC) = (rI, cI, mI)) \<or>
      (\<exists>i < length xs. (rM, cM) = fst (xs ! i) \<and> mC = scoreOf t (xs ! i) \<and> mI < mC \<and>
         (\<forall>j < length xs. scoreOf t (xs ! j) \<le> mC) \<and>
         (\<forall>j < i. scoreOf t (xs ! j) < mC))" by simp
  have mI: "mI \<le> mC" using IH by auto
  have le: "\<forall>j < length xs. scoreOf t (xs ! j) \<le> mC"
    using IH by (auto simp: all_set_conv_all_nth)
  show ?case
  proof (cases "scoreOf t x > mC")
    case True
    then have g: "fold (keepMax t) (xs @ [x]) (rI, cI, mI) = (fst (fst x), snd (fst x), scoreOf t x)"
      by (simp add: f keepMax_def)
    have "\<forall>j < length xs. scoreOf t (xs ! j) < scoreOf t x"
      using le True by auto
    then have "\<forall>j < length (xs @ [x]). scoreOf t ((xs @ [x]) ! j) \<le> scoreOf t x"
      "\<forall>j < length xs. scoreOf t ((xs @ [x]) ! j) < scoreOf t x"
      by (auto simp: nth_append less_Suc_eq)
    moreover have "mI < scoreOf t x" using mI True by auto
    ultimately show ?thesis
      unfolding g by (intro case_prodI disjI2 exI[of _ "length xs"]) (auto)
  next
    case False
    then have g: "fold (keepMax t) (xs @ [x]) (rI, cI, mI) = (rM, cM, mC)"
      by (simp add: f keepMax_def)
    from IH show ?thesis
    proof
      assume a: "(\<forall>x \<in> set xs. scoreOf t x \<le> mI) \<and> (rM, cM, mC) = (rI, cI, mI)"
      then show ?thesis unfolding g using False by auto
    next
      assume "\<exists>i < length xs. (rM, cM) = fst (xs ! i) \<and> mC = scoreOf t (xs ! i) \<and> mI < mC \<and>
         (\<forall>j < length xs. scoreOf t (xs ! j) \<le> mC) \<and>
         (\<forall>j < i. scoreOf t (xs ! j) < mC)"
      then obtain i where i: "i < length xs" "(rM, cM) = fst (xs ! i)" "mC = scoreOf t (xs ! i)"
        "mI < mC" "\<forall>j < length xs. scoreOf t (xs ! j) \<le> mC" "\<forall>j < i. scoreOf t (xs ! j) < mC"
        by blast
      have "\<forall>j < length (xs @ [x]). scoreOf t ((xs @ [x]) ! j) \<le> mC"
        using i(5) False by (auto simp: nth_append less_Suc_eq)
      moreover have "\<forall>j < i. scoreOf t ((xs @ [x]) ! j) < mC"
        using i(1,6) by (auto simp: nth_append)
      moreover have "(rM, cM) = fst ((xs @ [x]) ! i)" "mC = scoreOf t ((xs @ [x]) ! i)"
        using i(1,2,3) by (auto simp: nth_append)
      ultimately show ?thesis
        unfolding g using i(1,4) by (intro case_prodI disjI2 exI[of _ i]) auto
    qed
  qed
qed

lemma getFinalizeCandidatePos_no_positive:
  assumes "\<forall>x \<in> set (scanned t). scoreOf t x = 0"
  shows "getFinalizeCandidatePos t = (0, 0)"
proof -
  obtain rM cM mC where f: "fold (keepMax t) (scanned t) (0, 0, 0) = (rM, cM, mC)"
    by (cases "fold (keepMax t) (scanned t) (0, 0, 0)") auto
  from assms fold_keepMax[where t=t and xs="scanned t" and rI=0 and cI=0 and mI=0, unfolded f]
  have "(rM, cM, mC) = (0, 0, 0)"
    by (auto simp: all_set_conv_all_nth)
  then show ?thesis by (simp add: getFinalizeCandidatePos_scanned f)
qed

lemma first_maximum_of_scan:
  "(\<exists>x \<in> set (scanned t). 0 < scoreOf t x) \<longrightarrow>
     (\<exists>i < length (scanned t).
        getFinalizeCandidatePos t = fst (scanned t ! i) \<and>
        (\<forall>j < length (scanned t). scoreOf t (scanned t ! j) \<le> scoreOf t (scanned t ! i)) \<and>
        (\<forall>j < i. scoreOf t (scanned t ! j) < scoreOf t (scanned t ! i)))"
proof
  assume pos: "\<exists>x \<in> set (scanned t). 0 < scoreOf t x"
  obtain rM cM mC where f: "fold (keepMax t) (scanned t) (0, 0, 0) = (rM, cM, mC)"
    by (cases "fold (keepMax t) (scanned t) (0, 0, 0)") auto
  from pos have "\<not> (\<forall>x \<in> set (scanned t). scoreOf t x \<le> 0)" by (auto simp: word_gt_0)
  with fold_keepMax[where t=t and xs="scanned t" and rI=0 and cI=0 and mI=0, unfolded f]
  obtain i where "i < length (scanned t)" "(rM, cM) = fst (scanned t ! i)" "mC = scoreOf t (scanned t ! i)"
     "\<forall>j < length (scanned t). scoreOf t (scanned t ! j) \<le> mC"
     "\<forall>j < i. scoreOf t (scanned t ! j) < mC"
    by auto
  then show "\<exists>i < length (scanned t).
        getFinalizeCandidatePos t = fst (scanned t ! i) \<and>
        (\<forall>j < length (scanned t). scoreOf t (scanned t ! j) \<le> scoreOf t (scanned t ! i)) \<and>
        (\<forall>j < i. scoreOf t (scanned t ! j) < scoreOf t (scanned t ! i))"
    by (intro exI[of _ i]) (simp add: getFinalizeCandidatePos_scanned f)
qed

text \<open>
  C7.  \<open>getFinalizeCandidatePos\<close> goes through the cells in row-major order and, for each
  \<open>Unknown\<close> cell, through the values 1 to \<open>size\<close> in ascending order, with the score
  \<open>rowCounts[r][v] + columnCounts[c][v] - 1\<close> in 32-bit unsigned arithmetic.  When some
  scanned score is positive, the position returned is that of a scanned pair whose score is
  maximal, and it is the first such pair of the scan: every earlier pair has a strictly smaller
  score.  (When no scanned score is positive, which includes a board with no \<open>Unknown\<close> cell,
  the initial position \<open>(0, 0)\<close> is returned: \<open>getFinalizeCandidatePos_no_positive\<close>.)
\<close>

theorem getFinalizeCandidatePos_first_maximum:
  "(\<exists>x \<in> set (scanned t). 0 < scoreOf t x) \<longrightarrow>
     (\<exists>i < length (scanned t).
        getFinalizeCandidatePos t = fst (scanned t ! i) \<and>
        (\<forall>j < length (scanned t). scoreOf t (scanned t ! j) \<le> scoreOf t (scanned t ! i)) \<and>
        (\<forall>j < i. scoreOf t (scanned t ! j) < scoreOf t (scanned t ! i)))"
  by (rule first_maximum_of_scan)

theorem getFinalizeCandidatePos_first_maximum_witness:
  "(\<exists>x \<in> set (scanned board22). 0 < scoreOf board22 x) \<and>
   (\<exists>i < length (scanned board22).
      getFinalizeCandidatePos board22 = fst (scanned board22 ! i) \<and>
      (\<forall>j < length (scanned board22).
         scoreOf board22 (scanned board22 ! j) \<le> scoreOf board22 (scanned board22 ! i)) \<and>
      (\<forall>j < i. scoreOf board22 (scanned board22 ! j) < scoreOf board22 (scanned board22 ! i))) \<and>
   getFinalizeCandidatePos board22 = (1, 1) \<and>
   scoreOf board22 ((1, 1), 1) = 4294967295"
proof -
  have h: "\<exists>x \<in> set (scanned board22). 0 < scoreOf board22 x" by code_simp
  have p: "getFinalizeCandidatePos board22 = (1, 1)" by code_simp
  have s: "scoreOf board22 ((1, 1), 1) = 4294967295" by code_simp
  from getFinalizeCandidatePos_first_maximum[of board22] h p s show ?thesis by blast
qed

subsection \<open>The example boards\<close>

lemma newTable_board131: "newTable [[1, 3, 1], [1, 2, 1], [1, 1, 1]] = Returned board131"
  by code_simp

lemma newTable_board22: "newTable [[1, 2], [2, 2]] = Returned board22"
  by code_simp

subsection \<open>The handler of solve\<close>

text \<open>
  C3.  Past the test \<open>isSolved\<close>, \<open>solve\<close> runs its \<^verbatim>\<open>try\<close> block: \<open>finalizeCell\<close> on the copy
  at the candidate position, then the recursive call on the copy.  When that block raises
  \<^verbatim>\<open>NoSolutionExistsException\<close>, the result of \<open>solve\<close> is the handler's: \<open>deleteCell\<close> at the
  same position on the board the block started from, then the recursive call on it.  When the
  block raises an exception of any other class, \<open>solve\<close> raises that exception; when it
  returns a board, \<open>solve\<close> returns it.  An exception of \<open>finalizeCell\<close> is an exception of the
  block.
\<close>

theorem solve_catches_exactly_NoSolution:
  assumes "\<not> isSolved (finalizeUniqueCells t0)"
    and "getFinalizeCandidatePos (finalizeUniqueCells t0) = (row, column)"
  shows "(let t = finalizeUniqueCells t0;
              tryBlock = bindR (finalizeCell n t row column) (solve n);
              handler = bindR (deleteCell n t row column) (solve n)
          in (\<forall>e. tryBlock = Raised e \<and> isNoSolution e \<longrightarrow> solve (Suc n) t0 = handler) \<and>
             (\<forall>e. tryBlock = Raised e \<and> \<not> isNoSolution e \<longrightarrow> solve (Suc n) t0 = Raised e) \<and>
             (\<forall>t'. tryBlock = Returned t' \<longrightarrow> solve (Suc n) t0 = Returned t') \<and>
             (\<forall>e. finalizeCell n t row column = Raised e \<longrightarrow> tryBlock = Raised e) \<and>
             (\<forall>tCopy. finalizeCell n t row column = Returned tCopy \<longrightarrow> tryBlock = solve n tCopy))"
  using assms
  by (auto simp: Let_def isNoSolution_def split: result.splits exn.splits)

theorem solve_catches_exactly_NoSolution_witness:
  "\<not> isSolved (finalizeUniqueCells board131) \<and>
   getFinalizeCandidatePos (finalizeUniqueCells board131) = (0, 0) \<and>
   bindR (finalizeCell 8 (finalizeUniqueCells board131) 0 0) (solve 8)
     = Raised (NoSolutionExistsException ''circular neighbors found'') \<and>
   isNoSolution (NoSolutionExistsException ''circular neighbors found'') \<and>
   solve (Suc 8) board131 = bindR (deleteCell 8 (finalizeUniqueCells board131) 0 0) (solve 8)"
proof -
  have a: "\<not> isSolved (finalizeUniqueCells board131)" by code_simp
  have b: "getFinalizeCandidatePos (finalizeUniqueCells board131) = (0, 0)" by code_simp
  have c: "bindR (finalizeCell 8 (finalizeUniqueCells board131) 0 0) (solve 8)
     = Raised (NoSolutionExistsException ''circular neighbors found'')" by code_simp
  have d: "isNoSolution (NoSolutionExistsException ''circular neighbors found'')"
    by (simp add: isNoSolution_def)
  from solve_catches_exactly_NoSolution[OF a b, of 8] c d
  have "solve (Suc 8) board131 = bindR (deleteCell 8 (finalizeUniqueCells board131) 0 0) (solve 8)"
    by (simp add: Let_def)
  with a b c d show ?thesis by blast
qed

lemma countsOk_iff:
  "countsOk t \<longleftrightarrow>
     (\<forall>i < size_tab t. \<forall>v \<le> size_tab t.
        unat (rowCounts t ! i ! v) = unknownInRow t i v \<and>
        unat (columnCounts t ! i ! v) = unknownInColumn t i v)"
  unfolding countsOk_def list_all_iff set_upt atLeastLessThan_iff
  by (auto simp: less_Suc_eq_le)

lemma length_filter_remove1:
  assumes "distinct xs" "x \<in> set xs" "P x" "\<not> P' x" "\<And>y. y \<in> set xs \<Longrightarrow> y \<noteq> x \<Longrightarrow> P' y = P y"
  shows "length (filter P xs) = Suc (length (filter P' xs))"
proof -
  have "{y \<in> set xs. P y} = insert x {y \<in> set xs. P' y}"
    using assms by auto
  moreover have "x \<notin> {y \<in> set xs. P' y}" using assms by simp
  ultimately have "card {y \<in> set xs. P y} = Suc (card {y \<in> set xs. P' y})"
    by simp
  then show ?thesis
    using assms(1) by (simp add: distinct_length_filter Int_def conj_commute)
qed

lemma length_filter_same:
  "(\<And>y. y \<in> set xs \<Longrightarrow> P' y = P y) \<Longrightarrow> length (filter P' xs) = length (filter P xs)"
  by (rule arg_cong[where f = length]) (rule filter_cong, auto)

lemma distinct_positions: "distinct (positions t)"
  by (simp add: positions_def distinct_product)

lemma set_positions: "set (positions t) = {(r, c). r < size_tab t \<and> c < size_tab t}"
  by (auto simp: positions_def)

subsection \<open>leaveUnknown\<close>

lemma leaveUnknown_fields:
  "size_tab (leaveUnknown t r c s) = size_tab t"
  "deletedTrees (leaveUnknown t r c s) = deletedTrees t"
  "unknownCellCount (leaveUnknown t r c s) = unknownCellCount t - 1"
  by (simp_all add: leaveUnknown_def Let_def setState_fields)

lemma leaveUnknown_value: "valueAt (leaveUnknown t r c s) r' c' = valueAt t r' c'"
  using valueAt_setState[of t r c s r' c']
  by (simp add: leaveUnknown_def Let_def valueAt_def)

lemma leaveUnknown_state:
  assumes "shapeOk t" "r < size_tab t" "c < size_tab t"
  shows "stateAt (leaveUnknown t r c s) r' c' = (if r' = r \<and> c' = c then s else stateAt t r' c')"
  using assms stateAt_setState[of t r c s r' c']
  by (simp add: leaveUnknown_def Let_def stateAt_def shapeOk_cells)

lemma leaveUnknown_counts:
  assumes "shapeOk t" "r < size_tab t" "c < size_tab t"
  shows "rowCounts (leaveUnknown t r c s) ! r' ! v =
           (if r' = r \<and> v = valueAt t r c then rowCounts t ! r' ! v - 1 else rowCounts t ! r' ! v)"
    and "columnCounts (leaveUnknown t r c s) ! c' ! v =
           (if c' = c \<and> v = valueAt t r c then columnCounts t ! c' ! v - 1 else columnCounts t ! c' ! v)"
  using assms shapeOk_value(2)[OF assms]
  by (auto simp: leaveUnknown_def Let_def decr_def nth2_update shapeOk_counts setState_fields)

lemma shapeOk_leaveUnknown: "shapeOk t \<Longrightarrow> shapeOk (leaveUnknown t r c s)"
  using shapeOk_counts_update[OF shapeOk_setState, of t]
  by (simp add: leaveUnknown_def Let_def decr_def setState_fields)

lemma unknownInRow_leaveUnknown:
  assumes "shapeOk t" "r < size_tab t" "c < size_tab t" "stateAt t r c = Unknown" "s \<noteq> Unknown"
  shows "unknownInRow t r' v =
     (if r' = r \<and> v = valueAt t r c then Suc (unknownInRow (leaveUnknown t r c s) r' v)
      else unknownInRow (leaveUnknown t r c s) r' v)"
proof (cases "r' = r \<and> v = valueAt t r c")
  case True
  have "length (filter (\<lambda>x. stateAt t r x = Unknown \<and> valueAt t r x = v) [0..<size_tab t]) =
        Suc (length (filter (\<lambda>x. stateAt (leaveUnknown t r c s) r x = Unknown \<and>
                                 valueAt (leaveUnknown t r c s) r x = v) [0..<size_tab t]))"
    using assms True
    by (intro length_filter_remove1[where x = c])
       (auto simp: leaveUnknown_state[OF assms(1-3)] leaveUnknown_value)
  then show ?thesis
    unfolding if_P[OF True] unknownInRow_def leaveUnknown_fields using True by simp
next
  case False
  have "length (filter (\<lambda>x. stateAt (leaveUnknown t r c s) r' x = Unknown \<and>
                                 valueAt (leaveUnknown t r c s) r' x = v) [0..<size_tab t]) =
        length (filter (\<lambda>x. stateAt t r' x = Unknown \<and> valueAt t r' x = v) [0..<size_tab t])"
    using assms False
    by (intro length_filter_same)
       (auto simp: leaveUnknown_state[OF assms(1-3)] leaveUnknown_value)
  then show ?thesis
    unfolding if_not_P[OF False] unknownInRow_def leaveUnknown_fields by simp
qed

lemma unknownInColumn_leaveUnknown:
  assumes "shapeOk t" "r < size_tab t" "c < size_tab t" "stateAt t r c = Unknown" "s \<noteq> Unknown"
  shows "unknownInColumn t c' v =
     (if c' = c \<and> v = valueAt t r c then Suc (unknownInColumn (leaveUnknown t r c s) c' v)
      else unknownInColumn (leaveUnknown t r c s) c' v)"
proof (cases "c' = c \<and> v = valueAt t r c")
  case True
  have "length (filter (\<lambda>x. stateAt t x c = Unknown \<and> valueAt t x c = v) [0..<size_tab t]) =
        Suc (length (filter (\<lambda>x. stateAt (leaveUnknown t r c s) x c = Unknown \<and>
                                 valueAt (leaveUnknown t r c s) x c = v) [0..<size_tab t]))"
    using assms True
    by (intro length_filter_remove1[where x = r])
       (auto simp: leaveUnknown_state[OF assms(1-3)] leaveUnknown_value)
  then show ?thesis
    unfolding if_P[OF True] unknownInColumn_def leaveUnknown_fields using True by simp
next
  case False
  have "length (filter (\<lambda>x. stateAt (leaveUnknown t r c s) x c' = Unknown \<and>
                                 valueAt (leaveUnknown t r c s) x c' = v) [0..<size_tab t]) =
        length (filter (\<lambda>x. stateAt t x c' = Unknown \<and> valueAt t x c' = v) [0..<size_tab t])"
    using assms False
    by (intro length_filter_same)
       (auto simp: leaveUnknown_state[OF assms(1-3)] leaveUnknown_value)
  then show ?thesis
    unfolding if_not_P[OF False] unknownInColumn_def leaveUnknown_fields by simp
qed

lemma unknownCells_leaveUnknown:
  assumes "shapeOk t" "r < size_tab t" "c < size_tab t" "stateAt t r c = Unknown" "s \<noteq> Unknown"
  shows "unknownCells t = Suc (unknownCells (leaveUnknown t r c s))"
proof -
  have "positions (leaveUnknown t r c s) = positions t"
    by (simp add: positions_def leaveUnknown_fields)
  moreover have "length (filter (\<lambda>(x, y). stateAt t x y = Unknown) (positions t)) =
      Suc (length (filter (\<lambda>(x, y). stateAt (leaveUnknown t r c s) x y = Unknown) (positions t)))"
    using assms
    by (intro length_filter_remove1[where x = "(r, c)"])
       (auto simp: leaveUnknown_state[OF assms(1-3)] distinct_positions set_positions)
  ultimately show ?thesis by (simp add: unknownCells_def)
qed

lemma countsOk_leaveUnknown:
  assumes "shapeOk t" "countsOk t" "r < size_tab t" "c < size_tab t"
    "stateAt t r c = Unknown" "s \<noteq> Unknown"
  shows "countsOk (leaveUnknown t r c s)"
proof -
  let ?t' = "leaveUnknown t r c s"
  let ?v = "valueAt t r c"
  have v: "?v \<le> size_tab t" using assms by (simp add: shapeOk_value)
  have row: "unat (rowCounts ?t' ! i ! w) = unknownInRow ?t' i w" if "i < size_tab t" "w \<le> size_tab t" for i w
  proof -
    have old: "unat (rowCounts t ! i ! w) = unknownInRow t i w"
      using assms(2) that by (simp add: countsOk_iff)
    show ?thesis
    proof (cases "i = r \<and> w = ?v")
      case True
      then have "unat (rowCounts t ! i ! w) = Suc (unknownInRow ?t' i w)"
        using old unknownInRow_leaveUnknown[OF assms(1,3,4,5,6), of i w] by simp
      moreover from this have "rowCounts t ! i ! w \<noteq> 0" by (metis Zero_neq_Suc unat_0)
      ultimately show ?thesis
        using True by (simp add: leaveUnknown_counts[OF assms(1,3,4)] unat_minus_one)
    next
      case False
      then show ?thesis
        using old unknownInRow_leaveUnknown[OF assms(1,3,4,5,6), of i w]
        by (auto simp: leaveUnknown_counts[OF assms(1,3,4)])
    qed
  qed
  have col: "unat (columnCounts ?t' ! i ! w) = unknownInColumn ?t' i w" if "i < size_tab t" "w \<le> size_tab t" for i w
  proof -
    have old: "unat (columnCounts t ! i ! w) = unknownInColumn t i w"
      using assms(2) that by (simp add: countsOk_iff)
    show ?thesis
    proof (cases "i = c \<and> w = ?v")
      case True
      then have "unat (columnCounts t ! i ! w) = Suc (unknownInColumn ?t' i w)"
        using old unknownInColumn_leaveUnknown[OF assms(1,3,4,5,6), of i w] by simp
      moreover from this have "columnCounts t ! i ! w \<noteq> 0" by (metis Zero_neq_Suc unat_0)
      ultimately show ?thesis
        using True by (simp add: leaveUnknown_counts[OF assms(1,3,4)] unat_minus_one)
    next
      case False
      then show ?thesis
        using old unknownInColumn_leaveUnknown[OF assms(1,3,4,5,6), of i w]
        by (auto simp: leaveUnknown_counts[OF assms(1,3,4)])
    qed
  qed
  show ?thesis
    unfolding countsOk_iff leaveUnknown_fields using row col by blast
qed

lemma unknownOk_leaveUnknown:
  assumes "shapeOk t" "unknownOk t" "r < size_tab t" "c < size_tab t"
    "stateAt t r c = Unknown" "s \<noteq> Unknown"
  shows "unknownOk (leaveUnknown t r c s)"
  using assms(2) unknownCells_leaveUnknown[OF assms(1,3,4,5,6)]
  by (simp add: unknownOk_def leaveUnknown_fields)

lemma inElementRange_update [simp]: "inElementRange (ps[i := z]) e = inElementRange ps e"
  by (simp add: inElementRange_def)

lemma nth_update_elem:
  "inElementRange ps e \<Longrightarrow> inElementRange ps x \<Longrightarrow>
   ps[nat e := z] ! nat x = (if x = e then z else ps ! nat x)"
  by (auto simp: inElementRange_def nth_list_update)

lemma rootIn_range: "rootIn ps k e r \<Longrightarrow> inElementRange ps e"
  by (cases k) auto

lemma rootIn_det: "rootIn ps k e r \<Longrightarrow> rootIn ps k' e r' \<Longrightarrow> k = k' \<and> r = r'"
proof (induction k arbitrary: e k')
  case 0
  then show ?case by (cases k') auto
next
  case (Suc k)
  then show ?case by (cases k') auto
qed

lemma rootIn_root: "rootIn ps k e r \<Longrightarrow> rootIn ps 0 r r"
  by (induction k arbitrary: e) auto

lemma rootIn_findRoot: "rootIn ps k e r \<Longrightarrow> findRoot ps e = Some r"
proof (induction k arbitrary: e)
  case 0
  then show ?case by (subst findRoot.simps) auto
next
  case (Suc k)
  then show ?case by (subst findRoot.simps) auto
qed

lemma rootIn_other_root:
  "rootIn ps 0 x x \<Longrightarrow> x \<noteq> e \<Longrightarrow> inElementRange ps e \<Longrightarrow> rootIn (ps[nat e := z]) 0 x x"
  by (simp add: nth_update_elem)

lemma rootIn_Suc_other:
  "inElementRange ps x \<Longrightarrow> inElementRange ps e \<Longrightarrow> x \<noteq> e \<Longrightarrow> 0 \<le> ps ! nat x \<Longrightarrow>
   rootIn (ps[nat e := z]) k (ps ! nat x) y \<Longrightarrow> rootIn (ps[nat e := z]) (Suc k) x y"
  by (simp add: nth_update_elem)

lemma rootIn_Suc_self:
  "inElementRange ps e \<Longrightarrow> 0 \<le> z \<Longrightarrow> rootIn (ps[nat e := z]) k z y \<Longrightarrow>
   rootIn (ps[nat e := z]) (Suc k) e y"
  by (simp add: nth_update_elem)

lemma rootIn_update_deeper:
  "rootIn ps k x y \<Longrightarrow> rootIn ps d e r \<Longrightarrow> k < d \<Longrightarrow> rootIn (ps[nat e := z]) k x y"
proof (induction k arbitrary: x)
  case 0
  have "x \<noteq> e"
  proof
    assume "x = e"
    with 0 rootIn_det[of ps 0 e y d r] show False by auto
  qed
  with 0 show ?case by (auto simp: nth_update_elem rootIn_range)
next
  case (Suc k)
  have "x \<noteq> e"
  proof
    assume "x = e"
    with Suc.prems rootIn_det[of ps "Suc k" e y d r] show False by auto
  qed
  with Suc show ?case by (auto simp: nth_update_elem rootIn_range)
qed

lemma rootIn_point_to_root:
  assumes e: "rootIn ps (Suc d) e r"
  shows "rootIn ps k x y \<Longrightarrow> \<exists>k'. rootIn (ps[nat e := r]) k' x y"
proof (induction k arbitrary: x)
  case 0
  then have "x \<noteq> e" "y = x" "rootIn ps 0 x x" using e by auto
  then have "rootIn (ps[nat e := r]) 0 x y"
    using rootIn_other_root[of ps x e r] rootIn_range[OF e] by simp
  then show ?case ..
next
  case (Suc k)
  have re: "inElementRange ps e" using e by simp
  have r0: "rootIn ps 0 r r" using e by (rule rootIn_root)
  show ?case
  proof (cases "x = e")
    case True
    with Suc.prems e have y: "y = r" using rootIn_det by blast
    have "r \<noteq> e" using r0 e by auto
    with r0 have "rootIn (ps[nat e := r]) 0 r r" using re by (rule rootIn_other_root)
    moreover have "0 \<le> r" using r0 by (simp add: inElementRange_def)
    ultimately have "rootIn (ps[nat e := r]) (Suc 0) e r"
      using re by (intro rootIn_Suc_self)
    then show ?thesis unfolding True y ..
  next
    case False
    from Suc.prems have "rootIn ps k (ps ! nat x) y" by simp
    from Suc.IH[OF this] obtain k' where "rootIn (ps[nat e := r]) k' (ps ! nat x) y" ..
    moreover from Suc.prems have "inElementRange ps x" "0 \<le> ps ! nat x" by auto
    ultimately have "rootIn (ps[nat e := r]) (Suc k') x y"
      using False re by (intro rootIn_Suc_other)
    then show ?thesis ..
  qed
qed

lemma forestOk_point_to_root:
  "forestOk ps \<Longrightarrow> rootIn ps (Suc d) e r \<Longrightarrow> forestOk (ps[nat e := r])"
  unfolding forestOk_def using rootIn_point_to_root by (metis inElementRange_update)

lemma compress_forestOk:
  "rootIn ps k e r \<Longrightarrow> forestOk ps \<Longrightarrow>
   \<exists>ps'. compress ps r e = Some ps' \<and> length ps' = length ps \<and> forestOk ps' \<and> rootIn ps' 0 r r"
proof (induction k arbitrary: ps e)
  case 0
  then show ?case by (subst compress.simps) auto
next
  case (Suc k)
  let ?ps1 = "ps[nat e := r]"
  from Suc.prems have p: "rootIn ps k (ps ! nat e) r" and ge: "ps ! nat e \<ge> 0" by auto
  have "rootIn ?ps1 k (ps ! nat e) r"
    using rootIn_update_deeper[OF p Suc.prems(1)] by simp
  moreover have "forestOk ?ps1" using Suc.prems by (auto intro: forestOk_point_to_root)
  ultimately obtain ps' where "compress ?ps1 r (ps ! nat e) = Some ps'" "length ps' = length ?ps1"
     "forestOk ps'" "rootIn ps' 0 r r"
    using Suc.IH by blast
  then show ?case using ge by (subst compress.simps) auto
qed

lemma findSet_forestOk:
  assumes "forestOk ps"
  shows "case findSet ps e of
           Returned (r, ps') \<Rightarrow> forestOk ps' \<and> length ps' = length ps \<and> rootIn ps' 0 r r
         | Raised x \<Rightarrow> x = RangeError
         | Diverged \<Rightarrow> False"
proof (cases "inElementRange ps e")
  case False
  then show ?thesis by (simp add: findSet_def)
next
  case True
  with assms obtain k r where kr: "rootIn ps k e r" by (auto simp: forestOk_def)
  from compress_forestOk[OF kr assms] obtain ps' where
    "compress ps r e = Some ps'" "length ps' = length ps" "forestOk ps'" "rootIn ps' 0 r r"
    by blast
  then show ?thesis using True rootIn_findRoot[OF kr] by (simp add: findSet_def)
qed

lemma rootIn_link:
  assumes a: "rootIn ps 0 a a" and b: "rootIn ps 0 b b" and ab: "a \<noteq> b"
  shows "rootIn ps k x y \<Longrightarrow> \<exists>k'. rootIn (ps[nat a := b]) k' x (if y = a then b else y)"
proof (induction k arbitrary: x)
  case 0
  have ra: "inElementRange ps a" using a by simp
  have b': "rootIn (ps[nat a := b]) 0 b b" using b ab[symmetric] ra by (rule rootIn_other_root)
  from 0 have yx: "y = x" and x0: "rootIn ps 0 x x" by auto
  show ?case
  proof (cases "x = a")
    case True
    have "0 \<le> b" using b by (simp add: inElementRange_def)
    with ra b' have "rootIn (ps[nat a := b]) (Suc 0) a b"
      by (intro rootIn_Suc_self)
    then have "\<exists>k'. rootIn (ps[nat a := b]) k' a b" ..
    then show ?thesis unfolding yx True by simp
  next
    case False
    from x0 False ra have "rootIn (ps[nat a := b]) 0 x x" by (rule rootIn_other_root)
    then have "\<exists>k'. rootIn (ps[nat a := b]) k' x x" ..
    then show ?thesis unfolding yx using False by simp
  qed
next
  case (Suc k)
  have ra: "inElementRange ps a" using a by simp
  from Suc.prems a have "x \<noteq> a" by auto
  from Suc.prems have "rootIn ps k (ps ! nat x) y" by simp
  from Suc.IH[OF this] obtain k' where
    "rootIn (ps[nat a := b]) k' (ps ! nat x) (if y = a then b else y)" ..
  moreover from Suc.prems have "inElementRange ps x" "0 \<le> ps ! nat x" by auto
  ultimately have "rootIn (ps[nat a := b]) (Suc k') x (if y = a then b else y)"
    using \<open>x \<noteq> a\<close> ra by (intro rootIn_Suc_other)
  then show ?case ..
qed

lemma forestOk_link:
  "forestOk ps \<Longrightarrow> rootIn ps 0 a a \<Longrightarrow> rootIn ps 0 b b \<Longrightarrow> a \<noteq> b \<Longrightarrow> forestOk (ps[nat a := b])"
  unfolding forestOk_def using rootIn_link by (metis inElementRange_update)

lemma rootIn_rerank:
  assumes b: "rootIn ps 0 b b" and z: "z < 0"
  shows "rootIn ps k x y \<Longrightarrow> rootIn (ps[nat b := z]) k x y"
proof (induction k arbitrary: x)
  case 0
  with b z show ?case by (auto simp: nth_update_elem)
next
  case (Suc k)
  then have "x \<noteq> b" using b by auto
  with Suc b show ?case by (auto simp: nth_update_elem)
qed

lemma forestOk_rerank:
  "forestOk ps \<Longrightarrow> rootIn ps 0 b b \<Longrightarrow> z < 0 \<Longrightarrow> forestOk (ps[nat b := z])"
  unfolding forestOk_def using rootIn_rerank by (metis inElementRange_update)

lemma linkSets_forestOk:
  assumes "forestOk ps"
  shows "case linkSets ps a b of
           Returned ps' \<Rightarrow> forestOk ps' \<and> length ps' = length ps
         | Raised x \<Rightarrow> x = RangeError \<or> x = LogicError
         | Diverged \<Rightarrow> False"
proof (cases "inElementRange ps a \<and> inElementRange ps b \<and> ps ! nat a < 0 \<and> ps ! nat b < 0 \<and> a \<noteq> b")
  case False
  then show ?thesis using assms by (auto simp: linkSets_def)
next
  case True
  then have a: "rootIn ps 0 a a" and b: "rootIn ps 0 b b" and ab: "a \<noteq> b" by auto
  have 1: "forestOk (ps[nat a := b])" using assms a b ab by (rule forestOk_link)
  have 2: "forestOk (ps[nat b := a])" using assms b a ab[symmetric] by (rule forestOk_link)
  have "rootIn (ps[nat a := b]) 0 b b"
    using b ab[symmetric] rootIn_range[OF a] by (rule rootIn_other_root)
  moreover have "ps ! nat b - 1 < 0" using True by simp
  ultimately have 3: "forestOk (ps[nat a := b, nat b := ps ! nat b - 1])"
    using forestOk_rerank[OF 1, of b "ps ! nat b - 1"] by simp
  show ?thesis using True 1 2 3 by (auto simp: linkSets_def Let_def)
qed

lemma outcome_simps [simp]:
  "outcome P D (Returned x) = P x"
  "outcome P D (Raised e) = True"
  "outcome P D Diverged = D"
  by (simp_all add: outcome_def)

lemma outcome_mono:
  "outcome P D res \<Longrightarrow> (\<And>x. P x \<Longrightarrow> P' x) \<Longrightarrow> (D \<Longrightarrow> D') \<Longrightarrow> outcome P' D' res"
  by (cases res) auto

lemma outcome_bindR:
  "outcome P D m \<Longrightarrow> (\<And>x. P x \<Longrightarrow> outcome Q D (f x)) \<Longrightarrow> outcome Q D (bindR m f)"
  by (cases m) auto

lemma outcome_foldR:
  "J s \<Longrightarrow> (\<And>x s. x \<in> set xs \<Longrightarrow> J s \<Longrightarrow> outcome J D (f x s)) \<Longrightarrow> outcome J D (foldR f xs s)"
proof (induction xs arbitrary: s)
  case Nil
  then show ?case by simp
next
  case (Cons x xs)
  have 1: "outcome J D (f x s)" using Cons.prems by simp
  have 2: "outcome J D (foldR f xs s')" if "J s'" for s'
    using that Cons.prems(2) by (intro Cons.IH) auto
  show ?case
    unfolding foldR.simps using 1 2 by (rule outcome_bindR)
qed

subsection \<open>deletedTrees stays a forest\<close>

lemma findSet_outcome:
  "forestOk ps \<Longrightarrow>
   outcome (\<lambda>(r, ps'). forestOk ps' \<and> length ps' = length ps \<and> rootIn ps' 0 r r) False (findSet ps e)"
  using findSet_forestOk[of ps e] by (auto simp: outcome_def split: result.splits)

lemma linkSets_outcome:
  "forestOk ps \<Longrightarrow> outcome forestOk False (linkSets ps a b)"
  using linkSets_forestOk[of ps a b] by (auto simp: outcome_def split: result.splits)

lemma unionSets_outcome:
  assumes "forestOk ps"
  shows "outcome forestOk False (unionSets ps a b)"
  unfolding unionSets_def
proof (rule outcome_bindR[OF findSet_outcome[OF assms]], clarify)
  fix r1 ps1 assume "forestOk ps1"
  show "outcome forestOk False
          (bindR (findSet ps1 b) (\<lambda>(root2, parents2). linkSets parents2 r1 root2))"
    by (rule outcome_bindR[OF findSet_outcome[OF \<open>forestOk ps1\<close>]])
       (auto intro: linkSets_outcome)
qed

lemma joinDiagonal_outcome:
  assumes "forestOk ds"
  shows "outcome forestOk False (joinDiagonal t row column off ds)"
proof -
  obtain ro co where off: "off = (ro, co)" by (cases off)
  let ?r = "uadd row ro" and ?c = "uadd column co"
  show ?thesis
  proof (cases "inGrid t ?r ?c \<and> stateAt t (nat ?r) (nat ?c) = Deleted")
    case False
    then show ?thesis using assms by (auto simp: joinDiagonal_def off Let_def)
  next
    case True
    have "outcome forestOk False
       (bindR (findSet ds (cellIndex (size_tab t) (nat ?r) (nat ?c))) (\<lambda>(diagonalRoot, ds1).
          bindR (findSet ds1 (cellIndex (size_tab t) row column)) (\<lambda>(cellRoot, ds2).
            if diagonalRoot \<noteq> cellRoot then linkSets ds2 diagonalRoot cellRoot
            else Raised (NoSolutionExistsException ''circular neighbors found''))))"
    proof (rule outcome_bindR[OF findSet_outcome[OF assms]], clarify)
      fix r1 ps1 assume f1: "forestOk ps1"
      show "outcome forestOk False
          (bindR (findSet ps1 (cellIndex (size_tab t) row column)) (\<lambda>(cellRoot, ds2).
            if r1 \<noteq> cellRoot then linkSets ds2 r1 cellRoot
            else Raised (NoSolutionExistsException ''circular neighbors found'')))"
        by (rule outcome_bindR[OF findSet_outcome[OF f1]]) (auto intro: linkSets_outcome)
    qed
    with True show ?thesis by (simp add: joinDiagonal_def off Let_def)
  qed
qed

lemma joinDeleted_outcome:
  assumes "forestOk (deletedTrees t)"
  shows "outcome forestOk False (joinDeleted t row column)"
  unfolding joinDeleted_def
proof (rule outcome_bindR[where P = forestOk])
  show "outcome forestOk False
     (if onBorder t row column
      then unionSets (deletedTrees t) 0 (cellIndex (size_tab t) row column)
      else Returned (deletedTrees t))"
    using assms by (auto intro: unionSets_outcome)
next
  fix ds assume "forestOk ds"
  then show "outcome forestOk False (foldR (joinDiagonal t row column) (offsets (- 1, - 1)) ds)"
    by (rule outcome_foldR) (rule joinDiagonal_outcome)
qed

subsection \<open>The invariant does not read deletedTrees\<close>

lemma deletedTrees_update_reads [simp]:
  "stateAt (t\<lparr>deletedTrees := ds\<rparr>) = stateAt t"
  "valueAt (t\<lparr>deletedTrees := ds\<rparr>) = valueAt t"
  "positions (t\<lparr>deletedTrees := ds\<rparr>) = positions t"
  by (simp_all add: stateAt_def valueAt_def positions_def fun_eq_iff)

lemma deletedTrees_update_counts [simp]:
  "unknownInRow (t\<lparr>deletedTrees := ds\<rparr>) = unknownInRow t"
  "unknownInColumn (t\<lparr>deletedTrees := ds\<rparr>) = unknownInColumn t"
  "unknownCells (t\<lparr>deletedTrees := ds\<rparr>) = unknownCells t"
  by (simp_all add: unknownInRow_def unknownInColumn_def unknownCells_def fun_eq_iff)

lemma wellFormed_deletedTrees:
  "wellFormed t \<Longrightarrow> forestOk ds \<Longrightarrow> wellFormed (t\<lparr>deletedTrees := ds\<rparr>)"
  by (simp add: wellFormed_def shapeOk_def countsOk_def unknownOk_def)

lemma wellFormed_leaveUnknown:
  assumes "wellFormed t" "r < size_tab t" "c < size_tab t" "stateAt t r c = Unknown" "s \<noteq> Unknown"
  shows "wellFormed (leaveUnknown t r c s)"
    and "size_tab (leaveUnknown t r c s) = size_tab t"
    and "unknownCells t = Suc (unknownCells (leaveUnknown t r c s))"
  using assms
  by (simp_all add: wellFormed_def shapeOk_leaveUnknown countsOk_leaveUnknown
      unknownOk_leaveUnknown unknownCells_leaveUnknown leaveUnknown_fields)

lemma cascadeSpecD:
  "cascadeSpec m f \<Longrightarrow> wellFormed t \<Longrightarrow> r < size_tab t \<Longrightarrow> c < size_tab t \<Longrightarrow>
   outcome (\<lambda>t'. wellFormed t' \<and> size_tab t' = size_tab t \<and> unknownCells t' < unknownCells t)
     (m \<le> unknownCells t) (f t r c)"
  by (simp add: cascadeSpec_def)

text \<open>one call of the callee inside a loop of a body\<close>

lemma cascade_step:
  assumes spec: "cascadeSpec m f"
    and J: "wellFormed t' \<and> size_tab t' = n \<and> unknownCells t' \<le> u"
    and rc: "r < n" "c < n"
  shows "outcome (\<lambda>t''. wellFormed t'' \<and> size_tab t'' = n \<and> unknownCells t'' \<le> u)
           (m \<le> u) (f t' r c)"
  using cascadeSpecD[OF spec, of t' r c] J rc
  by (auto elim!: outcome_mono)

lemma finalizeCellBody_spec:
  assumes spec: "cascadeSpec m deleteCell'"
  shows "cascadeSpec (Suc m) (finalizeCellBody deleteCell')"
  unfolding cascadeSpec_def
proof (intro allI impI, elim conjE)
  fix t row column
  assume wf: "wellFormed t" and rg: "row < size_tab t" "column < size_tab t"
  let ?P = "\<lambda>t'. wellFormed t' \<and> size_tab t' = size_tab t \<and> unknownCells t' < unknownCells t"
  let ?D = "Suc m \<le> unknownCells t"
  show "outcome ?P ?D (finalizeCellBody deleteCell' t row column)"
  proof (cases "stateAt t row column = Unknown")
    case False
    then show ?thesis by (simp add: finalizeCellBody_def)
  next
    case True
    let ?v = "valueAt t row column"
    let ?t1 = "leaveUnknown t row column Final"
    let ?u = "unknownCells ?t1"
    let ?J = "\<lambda>t'. wellFormed t' \<and> size_tab t' = size_tab t \<and> unknownCells t' \<le> ?u"
    note lu = wellFormed_leaveUnknown[OF wf rg True, of Final, simplified]
    have u: "unknownCells t = Suc ?u" using lu by simp
    have J1: "?J ?t1" using lu by simp
    let ?colStep = "\<lambda>r t'.
                   if r \<noteq> row \<and> valueAt t' r column = ?v then
                     (case stateAt t' r column of
                        Final \<Rightarrow> Raised (NoSolutionExistsException
                                   ''multiple finalized values found in a column'')
                      | Unknown \<Rightarrow> deleteCell' t' r column
                      | Deleted \<Rightarrow> Returned t')
                   else Returned t'"
    let ?rowStep = "\<lambda>c t'.
                     if c \<noteq> column \<and> valueAt t' row c = ?v then
                       (case stateAt t' row c of
                          Final \<Rightarrow> Raised (NoSolutionExistsException
                                     ''multiple finalized values found in a row'')
                        | Unknown \<Rightarrow> deleteCell' t' row c
                        | Deleted \<Rightarrow> Returned t')
                     else Returned t'"
    have colStep: "outcome ?J (m \<le> ?u) (?colStep r t')" if "r \<in> set [0..<size_tab t]" "?J t'" for r t'
      using cascade_step[OF spec that(2), of r column] that rg
      by (auto split: State.splits)
    have rowStep: "outcome ?J (m \<le> ?u) (?rowStep c t')" if "c \<in> set [0..<size_tab t]" "?J t'" for c t'
      using cascade_step[OF spec that(2), of row c] that rg
      by (auto split: State.splits)
    have "outcome ?J (m \<le> ?u) (foldR ?colStep [0..<size_tab t] ?t1)"
      by (rule outcome_foldR[where J = ?J, OF J1]) (rule colStep)
    then have col: "outcome ?J (m \<le> ?u)
        (if columnCounts ?t1 ! column ! ?v > 0 then foldR ?colStep [0..<size_tab t] ?t1
         else Returned ?t1)"
      using J1 by simp
    have row: "outcome ?J (m \<le> ?u)
        (if rowCounts t2 ! row ! ?v > 0 then foldR ?rowStep [0..<size_tab t] t2
         else Returned t2)" if "?J t2" for t2
    proof -
      have "outcome ?J (m \<le> ?u) (foldR ?rowStep [0..<size_tab t] t2)"
        by (rule outcome_foldR[where J = ?J, OF that]) (rule rowStep)
      then show ?thesis using that by simp
    qed
    have "outcome ?J (m \<le> ?u) (finalizeCellBody deleteCell' t row column)"
      using True outcome_bindR[where P = ?J, OF col row]
      by (simp add: finalizeCellBody_def Let_def)
    then show ?thesis using u by (auto elim!: outcome_mono)
  qed
qed

lemma inGrid_nat: "inGrid t r c \<Longrightarrow> nat r < size_tab t \<and> nat c < size_tab t"
  by (auto simp: inGrid_def)

lemma deleteCellBody_spec:
  assumes spec: "cascadeSpec m finalizeCell'"
  shows "cascadeSpec (Suc m) (deleteCellBody finalizeCell')"
  unfolding cascadeSpec_def
proof (intro allI impI, elim conjE)
  fix t row column
  assume wf: "wellFormed t" and rg: "row < size_tab t" "column < size_tab t"
  let ?P = "\<lambda>t'. wellFormed t' \<and> size_tab t' = size_tab t \<and> unknownCells t' < unknownCells t"
  let ?D = "Suc m \<le> unknownCells t"
  show "outcome ?P ?D (deleteCellBody finalizeCell' t row column)"
  proof (cases "stateAt t row column = Unknown \<and> \<not> hasDeletedNeighbor t row column")
    case False
    then show ?thesis by (auto simp: deleteCellBody_def)
  next
    case True
    let ?step = "\<lambda>(rOffs, cOffs) t'.
             let r = uadd row rOffs; c = uadd column cOffs
             in if inGrid t' r c \<and> stateAt t' (nat r) (nat c) = Unknown
                then finalizeCell' t' (nat r) (nat c)
                else Returned t'"
    have fo: "forestOk (deletedTrees t)" using wf by (simp add: wellFormed_def)
    have rest: "outcome ?P ?D
        (foldR ?step (offsets (0, 1)) (leaveUnknown (t\<lparr>deletedTrees := ds\<rparr>) row column Deleted))"
      if ds: "forestOk ds" for ds
    proof -
      let ?t0 = "t\<lparr>deletedTrees := ds\<rparr>"
      let ?t1 = "leaveUnknown ?t0 row column Deleted"
      let ?u = "unknownCells ?t1"
      let ?J = "\<lambda>t'. wellFormed t' \<and> size_tab t' = size_tab t \<and> unknownCells t' \<le> ?u"
      have wf0: "wellFormed ?t0" using wf ds by (rule wellFormed_deletedTrees)
      have rg0: "row < size_tab ?t0" "column < size_tab ?t0" using rg by simp_all
      have un0: "stateAt ?t0 row column = Unknown" using True by simp
      note lu = wellFormed_leaveUnknown[OF wf0 rg0 un0, of Deleted, simplified]
      have u: "unknownCells t = Suc ?u" using lu by simp
      have J1: "?J ?t1" using lu by simp
      have step: "outcome ?J (m \<le> ?u) (?step off t')" if "?J t'" for off t'
      proof -
        obtain ro co where off: "off = (ro, co)" by (cases off)
        show ?thesis
        proof (cases "inGrid t' (uadd row ro) (uadd column co) \<and>
                      stateAt t' (nat (uadd row ro)) (nat (uadd column co)) = Unknown")
          case False
          then show ?thesis using that by (auto simp: off Let_def)
        next
          case True
          then have "nat (uadd row ro) < size_tab t" "nat (uadd column co) < size_tab t"
            using inGrid_nat[of t'] that by auto
          from cascade_step[OF spec that this] True show ?thesis
            by (simp add: off Let_def)
        qed
      qed
      have "outcome ?J (m \<le> ?u) (foldR ?step (offsets (0, 1)) ?t1)"
        using J1 step by (rule outcome_foldR)
      then show ?thesis using u by (auto elim!: outcome_mono)
    qed
    have "outcome ?P ?D (bindR (joinDeleted t row column) (\<lambda>ds.
          foldR ?step (offsets (0, 1)) (leaveUnknown (t\<lparr>deletedTrees := ds\<rparr>) row column Deleted)))"
      by (rule outcome_bindR[where P = forestOk])
         (use joinDeleted_outcome[OF fo, of row column] rest in \<open>auto elim!: outcome_mono\<close>)
    then show ?thesis using True by (simp add: deleteCellBody_def)
  qed
qed

lemma cascade_spec:
  "cascadeSpec n (finalizeCell n) \<and> cascadeSpec n (deleteCell n)"
proof (induction n)
  case 0
  have "finalizeCell 0 = (\<lambda>t r c. Diverged)" "deleteCell 0 = (\<lambda>t r c. Diverged)"
    by (simp_all add: fun_eq_iff)
  then show ?case by (simp add: cascadeSpec_def)
next
  case (Suc n)
  have "finalizeCell (Suc n) = finalizeCellBody (deleteCell n)"
       "deleteCell (Suc n) = deleteCellBody (finalizeCell n)"
    by (simp_all add: fun_eq_iff)
  with Suc show ?case by (simp add: finalizeCellBody_spec deleteCellBody_spec)
qed

lemma incr_nth:
  "i < length m \<Longrightarrow> j < length (m ! i) \<Longrightarrow>
   incr m i j ! i' ! j' = m ! i' ! j' + (if i' = i \<and> j' = j then 1 else 0)"
  by (simp add: incr_def nth2_update)

lemma incr_length [simp]:
  "length (incr m i j) = length m"
  "length (incr m i j ! i') = length (m ! i')"
  by (simp_all add: incr_def length2_update)

lemma initRow_result:
  assumes "initRow sz aR aC vs (rowCells, rc, cc) = Returned (rowCells', rc', cc')"
    and "aR < length rc" "aC + length vs \<le> length cc"
    and "\<forall>i < length rc. length (rc ! i) = sz + 1" "\<forall>i < length cc. length (cc ! i) = sz + 1"
  shows "list_all (\<lambda>v. 0 < v \<and> v \<le> sz) vs \<and>
         rowCells' = rowCells @ map mkCell vs \<and>
         length rc' = length rc \<and> length cc' = length cc \<and>
         (\<forall>i < length rc. length (rc' ! i) = sz + 1) \<and>
         (\<forall>i < length cc. length (cc' ! i) = sz + 1) \<and>
         (\<forall>r w. r < length rc \<and> w \<le> sz \<longrightarrow>
            rc' ! r ! w = rc ! r ! w + (if r = aR then of_nat (length (filter (\<lambda>x. x = w) vs)) else 0)) \<and>
         (\<forall>c w. c < length cc \<and> w \<le> sz \<longrightarrow>
            cc' ! c ! w = cc ! c ! w +
              (if aC \<le> c \<and> c < aC + length vs \<and> vs ! (c - aC) = w then 1 else 0))"
  using assms
proof (induction vs arbitrary: aC rowCells rc cc)
  case Nil
  then show ?case by simp
next
  case (Cons v vs)
  from Cons.prems(1) have v: "0 < v" "v \<le> sz"
    by (auto split: if_splits)
  let ?rc1 = "incr rc aR v" and ?cc1 = "incr cc aC v"
  from Cons.prems(1) v have step:
    "initRow sz aR (aC + 1) vs (rowCells @ [mkCell v], ?rc1, ?cc1) = Returned (rowCells', rc', cc')"
    by simp
  have pre: "aR < length ?rc1" "(aC + 1) + length vs \<le> length ?cc1"
    "\<forall>i < length ?rc1. length (?rc1 ! i) = sz + 1" "\<forall>i < length ?cc1. length (?cc1 ! i) = sz + 1"
    using Cons.prems by auto
  note IH = Cons.IH[OF step pre]
  have rc1: "?rc1 ! r ! w = rc ! r ! w + (if r = aR \<and> w = v then 1 else 0)" for r w
    using Cons.prems v by (intro incr_nth) auto
  have cc1: "?cc1 ! c ! w = cc ! c ! w + (if c = aC \<and> w = v then 1 else 0)" for c w
    using Cons.prems v by (intro incr_nth) auto
  have rows: "rc' ! r ! w = rc ! r ! w +
      (if r = aR then of_nat (length (filter (\<lambda>x. x = w) (v # vs))) else 0)"
    if "r < length rc" "w \<le> sz" for r w
    using IH that rc1[of r w] by auto
  have cols: "cc' ! c ! w = cc ! c ! w +
      (if aC \<le> c \<and> c < aC + length (v # vs) \<and> (v # vs) ! (c - aC) = w then 1 else 0)"
    if "c < length cc" "w \<le> sz" for c w
  proof -
    have "cc' ! c ! w = ?cc1 ! c ! w +
        (if aC + 1 \<le> c \<and> c < aC + 1 + length vs \<and> vs ! (c - (aC + 1)) = w then 1 else 0)"
      using IH that by simp
    then show ?thesis
      unfolding cc1 by (cases "c = aC") (auto simp: nth_Cons' )
  qed
  show ?case
    using IH v rows cols by (simp del: initRow.simps)
qed

lemma initRows_result:
  assumes "initRows sz aR rows (cs, rc, cc) = Returned (cs', rc', cc')"
    and "aR + length rows \<le> length rc" "length cc = sz"
    and "\<forall>i < length rc. length (rc ! i) = sz + 1" "\<forall>i < length cc. length (cc ! i) = sz + 1"
  shows "list_all (\<lambda>row. length row = sz \<and> list_all (\<lambda>v. 0 < v \<and> v \<le> sz) row) rows \<and>
         cs' = cs @ map (map mkCell) rows \<and>
         length rc' = length rc \<and> length cc' = length cc \<and>
         (\<forall>i < length rc. length (rc' ! i) = sz + 1) \<and>
         (\<forall>i < length cc. length (cc' ! i) = sz + 1) \<and>
         (\<forall>r w. r < length rc \<and> w \<le> sz \<longrightarrow>
            rc' ! r ! w = rc ! r ! w +
              (if aR \<le> r \<and> r < aR + length rows
               then of_nat (length (filter (\<lambda>x. x = w) (rows ! (r - aR)))) else 0)) \<and>
         (\<forall>c w. c < sz \<and> w \<le> sz \<longrightarrow>
            cc' ! c ! w = cc ! c ! w + of_nat (length (filter (\<lambda>row. row ! c = w) rows)))"
  using assms
proof (induction rows arbitrary: aR cs rc cc)
  case Nil
  then show ?case by auto
next
  case (Cons row rows)
  from Cons.prems(1) have len: "length row = sz" by (auto split: if_splits)
  from Cons.prems(1) len obtain rowCells rc1 cc1 where
    r1: "initRow sz aR 0 row ([], rc, cc) = Returned (rowCells, rc1, cc1)" and
    rest: "initRows sz (aR + 1) rows (cs @ [rowCells], rc1, cc1) = Returned (cs', rc', cc')"
    by (cases "initRow sz aR 0 row ([], rc, cc)") (auto split: if_splits)
  have "aR < length rc" "0 + length row \<le> length cc" using Cons.prems len by auto
  note R = initRow_result[OF r1 this Cons.prems(4,5)]
  have pre: "(aR + 1) + length rows \<le> length rc1" "length cc1 = sz"
    "\<forall>i < length rc1. length (rc1 ! i) = sz + 1" "\<forall>i < length cc1. length (cc1 ! i) = sz + 1"
    using R Cons.prems by auto
  note IH = Cons.IH[OF rest pre]
  have rows': "rc' ! r ! w = rc ! r ! w +
      (if aR \<le> r \<and> r < aR + length (row # rows)
       then of_nat (length (filter (\<lambda>x. x = w) ((row # rows) ! (r - aR)))) else 0)"
    if "r < length rc" "w \<le> sz" for r w
  proof -
    have a: "rc' ! r ! w = rc1 ! r ! w +
        (if aR + 1 \<le> r \<and> r < aR + 1 + length rows
         then of_nat (length (filter (\<lambda>x. x = w) (rows ! (r - (aR + 1))))) else 0)"
      using IH R that by simp
    have b: "rc1 ! r ! w = rc ! r ! w + (if r = aR then of_nat (length (filter (\<lambda>x. x = w) row)) else 0)"
      using R that by simp
    show ?thesis unfolding a b by (cases "r = aR") (auto simp: nth_Cons')
  qed
  have cols': "cc' ! c ! w = cc ! c ! w + of_nat (length (filter (\<lambda>row. row ! c = w) (row # rows)))"
    if "c < sz" "w \<le> sz" for c w
  proof -
    have a: "cc' ! c ! w = cc1 ! c ! w + of_nat (length (filter (\<lambda>row. row ! c = w) rows))"
      using IH that by simp
    have b: "cc1 ! c ! w = cc ! c ! w + (if row ! c = w then 1 else 0)"
      using R that len Cons.prems(3) by simp
    show ?thesis unfolding a b by simp
  qed
  show ?case
    using IH R len rows' cols' by (simp del: initRows.simps initRow.simps)
qed

lemma length_filter_index:
  "length (filter (\<lambda>i. P (xs ! i)) [0..<length xs]) = length (filter P xs)"
proof -
  have "filter P xs = filter P (map (nth xs) [0..<length xs])" by (simp add: map_nth)
  also have "\<dots> = map (nth xs) (filter (P \<circ> nth xs) [0..<length xs])" by (rule filter_map)
  finally show ?thesis by (simp add: comp_def)
qed

lemma forestOk_newDisjointSets: "forestOk (newDisjointSets n)"
proof -
  have "rootIn (newDisjointSets n) 0 e e" if "inElementRange (newDisjointSets n) e" for e
    using that by (auto simp: newDisjointSets_def inElementRange_def)
  then show ?thesis unfolding forestOk_def by blast
qed

lemma newTable_wellFormed:
  assumes nt: "newTable m = Returned t" and len: "length m < 2 ^ 32"
  shows "wellFormed t" and "size_tab t = length m" and "cells t = map (map mkCell) m"
proof -
  let ?sz = "length m"
  let ?zeros = "replicate ?sz (replicate (?sz + 1) (0 :: u32))"
  have sz: "unat (word_of_nat ?sz :: u32) = ?sz" using len by (simp add: unat_of_nat)
  from nt obtain cs rc cc where
    ir: "initRows ?sz 0 m ([], ?zeros, ?zeros) = Returned (cs, rc, cc)" and
    t: "t = \<lparr>size_tab = ?sz, cells = cs, rowCounts = rc, columnCounts = cc,
              unknownCellCount = word_of_nat (?sz * ?sz),
              deletedTrees = newDisjointSets (unat (word_of_nat (?sz * ?sz + 1) :: u32))\<rparr>"
    unfolding newTable_def Let_def sz
    by (cases "initRows ?sz 0 m ([], ?zeros, ?zeros)") auto
  have "0 + length m \<le> length ?zeros" "length ?zeros = ?sz"
    "\<forall>i < length ?zeros. length (?zeros ! i) = ?sz + 1" by simp_all
  note R = initRows_result[OF ir this this(3)]
  have rowsOk: "list_all (\<lambda>row. length row = ?sz \<and> list_all (\<lambda>v. 0 < v \<and> v \<le> ?sz) row) m"
    and cs: "cs = map (map mkCell) m"
    and lens: "length rc = ?sz" "length cc = ?sz"
      "\<forall>i < ?sz. length (rc ! i) = ?sz + 1" "\<forall>i < ?sz. length (cc ! i) = ?sz + 1"
    using R by simp_all
  have Z: "?zeros ! r ! w = 0" if "r < ?sz" "w \<le> ?sz" for r w
    using that by (simp del: replicate.simps)
  have "rc ! r ! w = ?zeros ! r ! w + of_nat (length (filter (\<lambda>x. x = w) (m ! r)))"
    if "r < ?sz" "w \<le> ?sz" for r w
    using R that by (simp del: replicate.simps)
  then have rcv: "rc ! r ! w = of_nat (length (filter (\<lambda>x. x = w) (m ! r)))" if "r < ?sz" "w \<le> ?sz" for r w
    using that Z by simp
  have "cc ! c ! w = ?zeros ! c ! w + of_nat (length (filter (\<lambda>row. row ! c = w) m))"
    if "c < ?sz" "w \<le> ?sz" for c w
    using R that by (simp del: replicate.simps)
  then have ccv: "cc ! c ! w = of_nat (length (filter (\<lambda>row. row ! c = w) m))" if "c < ?sz" "w \<le> ?sz" for c w
    using that Z by simp
  have rowlen: "length (m ! r) = ?sz" if "r < ?sz" for r
    using rowsOk that by (simp add: list_all_length)
  have st: "stateAt t r c = Unknown" and va: "valueAt t r c = m ! r ! c" if "r < ?sz" "c < ?sz" for r c
    using that rowlen by (simp_all add: t cs stateAt_def valueAt_def)
  show "size_tab t = length m" by (simp add: t)
  show "cells t = map (map mkCell) m" by (simp add: t cs)
  have shape: "shapeOk t"
    using rowsOk lens len
    by (simp add: shapeOk_def t cs list_all_length)
  have uir: "unknownInRow t r w = length (filter (\<lambda>x. x = w) (m ! r))" if "r < ?sz" for r w
  proof -
    have "filter (\<lambda>c. stateAt t r c = Unknown \<and> valueAt t r c = w) [0..<?sz]
        = filter (\<lambda>c. m ! r ! c = w) [0..<length (m ! r)]"
      using that st va rowlen by (intro filter_cong) auto
    then show ?thesis
      using length_filter_index[of "\<lambda>x. x = w" "m ! r"]
      by (simp add: unknownInRow_def t)
  qed
  have uic: "unknownInColumn t c w = length (filter (\<lambda>row. row ! c = w) m)" if "c < ?sz" for c w
  proof -
    have "filter (\<lambda>r. stateAt t r c = Unknown \<and> valueAt t r c = w) [0..<?sz]
        = filter (\<lambda>r. m ! r ! c = w) [0..<length m]"
      using that st va by (intro filter_cong) auto
    then show ?thesis
      using length_filter_index[of "\<lambda>row. row ! c = w" m]
      by (simp add: unknownInColumn_def t)
  qed
  have counts: "countsOk t"
    unfolding countsOk_iff
  proof (intro allI impI conjI)
    fix i v assume iv: "i < size_tab t" "v \<le> size_tab t"
    then have i: "i < ?sz" "v \<le> ?sz" by (simp_all add: t)
    have "length (filter (\<lambda>x. x = v) (m ! i)) \<le> ?sz"
      using length_filter_le[of "\<lambda>x. x = v" "m ! i"] rowlen[OF i(1)] by simp
    then have "length (filter (\<lambda>x. x = v) (m ! i)) < 2 ^ 32"
      using len by (rule le_less_trans)
    then show "unat (rowCounts t ! i ! v) = unknownInRow t i v"
      using rcv[OF i] uir[OF i(1)] by (simp add: t unat_of_nat)
    have "length (filter (\<lambda>row. row ! i = v) m) < 2 ^ 32"
      using length_filter_le[of "\<lambda>row. row ! i = v" m] len by (rule le_less_trans)
    then show "unat (columnCounts t ! i ! v) = unknownInColumn t i v"
      using ccv[OF i] uic[OF i(1)] by (simp add: t unat_of_nat)
  qed
  have "filter (\<lambda>(r, c). stateAt t r c = Unknown) (positions t) = positions t"
    using st by (intro filter_True) (auto simp: set_positions t)
  then have "unknownCells t = ?sz * ?sz"
    by (simp add: unknownCells_def) (simp add: positions_def t)
  then have unk: "unknownOk t" by (simp add: unknownOk_def t)
  show "wellFormed t"
    using shape counts unk by (simp add: wellFormed_def) (simp add: t forestOk_newDisjointSets)
qed

subsection \<open>finalizeUniqueCells keeps the invariant\<close>

lemma finalizeUniqueStep_leaveUnknown:
  "finalizeUniqueStep r c t = (if uniqueAt t r c then leaveUnknown t r c Final else t)"
  by (auto simp: finalizeUniqueStep_unfold leaveUnknown_def Let_def store_def decr_def uniqueAt_def)

lemma wellFormed_finalizeUniqueStep:
  assumes "wellFormed t" "r < size_tab t" "c < size_tab t"
  shows "wellFormed (finalizeUniqueStep r c t) \<and> unknownCells (finalizeUniqueStep r c t) \<le> unknownCells t"
proof (cases "uniqueAt t r c")
  case True
  then have "stateAt t r c = Unknown" by (simp add: uniqueAt_def)
  from wellFormed_leaveUnknown[OF assms this, of Final] True show ?thesis
    by (simp add: finalizeUniqueStep_leaveUnknown)
next
  case False
  then show ?thesis using assms by (simp add: finalizeUniqueStep_leaveUnknown)
qed

lemma wellFormed_fold_step:
  assumes "wellFormed t" "\<forall>(r, c) \<in> set ps. r < size_tab t \<and> c < size_tab t"
  shows "wellFormed (fold (\<lambda>(r, c). finalizeUniqueStep r c) ps t) \<and>
         unknownCells (fold (\<lambda>(r, c). finalizeUniqueStep r c) ps t) \<le> unknownCells t"
  using assms
proof (induction ps arbitrary: t)
  case Nil
  then show ?case by simp
next
  case (Cons p ps)
  obtain r c where p: "p = (r, c)" by (cases p)
  have rc: "r < size_tab t" "c < size_tab t" using Cons.prems p by auto
  note s = wellFormed_finalizeUniqueStep[OF Cons.prems(1) rc]
  have "\<forall>(r', c') \<in> set ps. r' < size_tab (finalizeUniqueStep r c t) \<and> c' < size_tab (finalizeUniqueStep r c t)"
    using Cons.prems by auto
  from Cons.IH[OF conjunct1[OF s] this] s show ?case by (simp add: p)
qed

lemma wellFormed_finalizeUniqueCells:
  assumes "wellFormed t"
  shows "wellFormed (finalizeUniqueCells t)"
    and "size_tab (finalizeUniqueCells t) = size_tab t"
    and "unknownCells (finalizeUniqueCells t) \<le> unknownCells t"
proof -
  have "\<forall>(r, c) \<in> set (positions t). r < size_tab t \<and> c < size_tab t"
    by (auto simp: set_positions)
  from wellFormed_fold_step[OF assms this]
  show "wellFormed (finalizeUniqueCells t)" "unknownCells (finalizeUniqueCells t) \<le> unknownCells t"
    by (simp_all add: finalizeUniqueCells_positions)
  show "size_tab (finalizeUniqueCells t) = size_tab t"
    by (simp add: finalizeUniqueCells_positions)
qed

subsection \<open>The candidate is an Unknown cell\<close>

lemma unknownInRow_bounds:
  "unknownInRow t r v \<le> size_tab t"
  "c < size_tab t \<Longrightarrow> stateAt t r c = Unknown \<Longrightarrow> 0 < unknownInRow t r (valueAt t r c)"
proof -
  show "unknownInRow t r v \<le> size_tab t"
    unfolding unknownInRow_def
    using length_filter_le[of "\<lambda>c. stateAt t r c = Unknown \<and> valueAt t r c = v" "[0..<size_tab t]"]
    by simp
  show "0 < unknownInRow t r (valueAt t r c)" if "c < size_tab t" "stateAt t r c = Unknown"
    unfolding unknownInRow_def using that by (auto simp: filter_empty_conv)
qed

lemma unknownInColumn_bounds:
  "unknownInColumn t c v \<le> size_tab t"
  "r < size_tab t \<Longrightarrow> stateAt t r c = Unknown \<Longrightarrow> 0 < unknownInColumn t c (valueAt t r c)"
proof -
  show "unknownInColumn t c v \<le> size_tab t"
    unfolding unknownInColumn_def
    using length_filter_le[of "\<lambda>r. stateAt t r c = Unknown \<and> valueAt t r c = v" "[0..<size_tab t]"]
    by simp
  show "0 < unknownInColumn t c (valueAt t r c)" if "r < size_tab t" "stateAt t r c = Unknown"
    unfolding unknownInColumn_def using that by (auto simp: filter_empty_conv)
qed

lemma unknown_cell_scanned:
  assumes "shapeOk t" "r < size_tab t" "c < size_tab t" "stateAt t r c = Unknown"
  shows "((r, c), valueAt t r c) \<in> set (scanned t)"
  using assms shapeOk_value[OF assms(1-3)]
  by (auto simp: scanned_def set_positions)

lemma unknown_cell_score:
  assumes "shapeOk t" "countsOk t" "size_tab t < 2 ^ 31"
    and "r < size_tab t" "c < size_tab t" "stateAt t r c = Unknown"
  shows "0 < scoreOf t ((r, c), valueAt t r c)"
proof -
  let ?v = "valueAt t r c"
  let ?a = "rowCounts t ! r ! ?v" and ?b = "columnCounts t ! c ! ?v"
  have v: "?v \<le> size_tab t" using assms by (simp add: shapeOk_value)
  have a: "unat ?a = unknownInRow t r ?v" and b: "unat ?b = unknownInColumn t c ?v"
    using assms(2,4,5) v by (simp_all add: countsOk_iff)
  have a1: "0 < unat ?a" "unat ?a \<le> size_tab t"
    using unknownInRow_bounds(1)[of t r ?v] unknownInRow_bounds(2)[OF assms(5,6)] a by auto
  have b1: "0 < unat ?b" "unat ?b \<le> size_tab t"
    using unknownInColumn_bounds(1)[of t c ?v] unknownInColumn_bounds(2)[OF assms(4,6)] b by auto
  have "unat ?a + unat ?b < 2 ^ 32" using a1 b1 assms(3) by simp
  then have ab: "unat (?a + ?b) = unat ?a + unat ?b" using unat_add_lem[of ?a ?b] by simp
  then have "?a + ?b \<noteq> 0" using a1 by (metis add_is_0 less_numeral_extra(3) unat_0)
  then have "unat (?a + ?b - 1) = unat ?a + unat ?b - 1" using ab by (simp add: unat_minus_one)
  then have "0 < unat (?a + ?b - 1)" using a1 b1 by simp
  then show ?thesis by (simp add: scoreOf_def unat_gt_0 word_gt_0)
qed

lemma scanned_mem:
  "((r, c), v) \<in> set (scanned t) \<Longrightarrow> r < size_tab t \<and> c < size_tab t \<and> stateAt t r c = Unknown"
  by (auto simp: scanned_def set_positions simp del: upt_Suc)

lemma candidate_unknown:
  assumes "shapeOk t" "countsOk t" "size_tab t < 2 ^ 31"
    and "r0 < size_tab t" "c0 < size_tab t" "stateAt t r0 c0 = Unknown"
  shows "case getFinalizeCandidatePos t of
           (r, c) \<Rightarrow> r < size_tab t \<and> c < size_tab t \<and> stateAt t r c = Unknown"
proof -
  have "\<exists>x \<in> set (scanned t). 0 < scoreOf t x"
    using unknown_cell_scanned[OF assms(1,4,5,6)] unknown_cell_score[OF assms] by blast
  with first_maximum_of_scan[of t] obtain i where
    i: "i < length (scanned t)" "getFinalizeCandidatePos t = fst (scanned t ! i)"
    by blast
  obtain r c v where x: "scanned t ! i = ((r, c), v)" by (metis prod.exhaust)
  from i(1) have "scanned t ! i \<in> set (scanned t)" by simp
  then have "r < size_tab t \<and> c < size_tab t \<and> stateAt t r c = Unknown"
    unfolding x by (rule scanned_mem)
  then show ?thesis by (simp add: i(2) x)
qed

subsection \<open>Which exceptions a call can raise\<close>

lemma raisesOnly_simps [simp]:
  "raisesOnly S (Returned x)"
  "raisesOnly S (Raised e) = (e \<in> S)"
  "raisesOnly S Diverged"
  by (simp_all add: raisesOnly_def)

lemma raisesOnly_mono: "raisesOnly S res \<Longrightarrow> S \<subseteq> S' \<Longrightarrow> raisesOnly S' res"
  by (auto simp: raisesOnly_def)

lemma raisesOnly_bindR:
  "raisesOnly S m \<Longrightarrow> (\<And>x. raisesOnly S (f x)) \<Longrightarrow> raisesOnly S (bindR m f)"
  by (cases m) auto

lemma raisesOnly_foldR:
  "(\<And>x s. raisesOnly S (f x s)) \<Longrightarrow> raisesOnly S (foldR f xs s)"
proof (induction xs arbitrary: s)
  case Nil
  then show ?case by simp
next
  case (Cons x xs)
  show ?case unfolding foldR.simps
    by (rule raisesOnly_bindR) (auto intro: Cons)
qed

lemma findSet_raises: "raisesOnly {RangeError} (findSet ps e)"
  by (auto simp: findSet_def split: option.splits)

lemma linkSets_raises: "raisesOnly {RangeError, LogicError} (linkSets ps a b)"
  by (auto simp: linkSets_def Let_def)

lemma unionSets_raises: "raisesOnly {RangeError, LogicError} (unionSets ps a b)"
  unfolding unionSets_def
  by (intro raisesOnly_bindR raisesOnly_mono[OF findSet_raises])
     (auto intro: raisesOnly_bindR raisesOnly_mono[OF findSet_raises] linkSets_raises)

lemma joinDiagonal_raises:
  "raisesOnly {RangeError, LogicError, NoSolutionExistsException ''circular neighbors found''}
     (joinDiagonal t row column off ds)"
proof -
  let ?S = "{RangeError, LogicError, NoSolutionExistsException ''circular neighbors found''}"
  obtain ro co where off: "off = (ro, co)" by (cases off)
  have 1: "raisesOnly ?S (findSet ps e)" for ps e
    by (rule raisesOnly_mono[OF findSet_raises]) simp
  have 2: "raisesOnly ?S (linkSets ps a b)" for ps a b
    by (rule raisesOnly_mono[OF linkSets_raises]) simp
  have "raisesOnly ?S (bindR (findSet ds e1) (\<lambda>(diagonalRoot, ds1).
          bindR (findSet ds1 e2) (\<lambda>(cellRoot, ds2).
            if diagonalRoot \<noteq> cellRoot then linkSets ds2 diagonalRoot cellRoot
            else Raised (NoSolutionExistsException ''circular neighbors found''))))" for e1 e2
    by (intro raisesOnly_bindR 1) (auto intro!: raisesOnly_bindR 1 2)
  then show ?thesis by (simp add: joinDiagonal_def off Let_def)
qed

lemma joinDeleted_raises:
  "raisesOnly {RangeError, LogicError, NoSolutionExistsException ''circular neighbors found''}
     (joinDeleted t row column)"
  unfolding joinDeleted_def
  by (intro raisesOnly_bindR raisesOnly_foldR joinDiagonal_raises)
     (auto intro: raisesOnly_mono[OF unionSets_raises])

text \<open>the two functions never find the cell they are asked to change already changed,
  below the first call\<close>

lemma finalizeCellBody_notMSC:
  assumes "\<And>t r c. stateAt t r c = Unknown \<Longrightarrow>
             raisesOnly {e. e \<noteq> MultipleStateChangeException} (deleteCell' t r c)"
    and "stateAt t row column = Unknown"
  shows "raisesOnly {e. e \<noteq> MultipleStateChangeException} (finalizeCellBody deleteCell' t row column)"
  using assms(2) unfolding finalizeCellBody_def Let_def
  by (auto intro!: raisesOnly_bindR raisesOnly_foldR assms(1) split: State.splits)

lemma deleteCellBody_notMSC:
  assumes "\<And>t r c. stateAt t r c = Unknown \<Longrightarrow>
             raisesOnly {e. e \<noteq> MultipleStateChangeException} (finalizeCell' t r c)"
    and "stateAt t row column = Unknown"
  shows "raisesOnly {e. e \<noteq> MultipleStateChangeException} (deleteCellBody finalizeCell' t row column)"
  using assms(2) unfolding deleteCellBody_def Let_def
  by (auto intro!: raisesOnly_bindR raisesOnly_foldR assms(1)
        raisesOnly_mono[OF joinDeleted_raises])

lemma cascade_notMSC:
  "(\<forall>t r c. stateAt t r c = Unknown \<longrightarrow>
      raisesOnly {e. e \<noteq> MultipleStateChangeException} (finalizeCell n t r c)) \<and>
   (\<forall>t r c. stateAt t r c = Unknown \<longrightarrow>
      raisesOnly {e. e \<noteq> MultipleStateChangeException} (deleteCell n t r c))"
proof (induction n)
  case 0
  then show ?case by simp
next
  case (Suc n)
  then show ?case
    by (auto intro!: finalizeCellBody_notMSC deleteCellBody_notMSC)
qed

subsection \<open>Boards that can be reached\<close>

lemma cascade_returned:
  assumes "wellFormed t" "r < size_tab t" "c < size_tab t"
    and "finalizeCell n t r c = Returned t' \<or> deleteCell n t r c = Returned t'"
  shows "wellFormed t'" "size_tab t' = size_tab t" "unknownCells t' < unknownCells t"
proof -
  from cascade_spec[of n] have
    "outcome (\<lambda>t'. wellFormed t' \<and> size_tab t' = size_tab t \<and> unknownCells t' < unknownCells t)
       (n \<le> unknownCells t) (finalizeCell n t r c)"
    "outcome (\<lambda>t'. wellFormed t' \<and> size_tab t' = size_tab t \<and> unknownCells t' < unknownCells t)
       (n \<le> unknownCells t) (deleteCell n t r c)"
    using assms(1-3) by (auto intro: cascadeSpecD)
  with assms(4) show "wellFormed t'" "size_tab t' = size_tab t" "unknownCells t' < unknownCells t"
    by auto
qed

lemma cascade_not_diverged:
  assumes "wellFormed t" "r < size_tab t" "c < size_tab t" "unknownCells t < n"
  shows "finalizeCell n t r c \<noteq> Diverged" "deleteCell n t r c \<noteq> Diverged"
proof -
  from cascade_spec[of n] have
    "outcome (\<lambda>t'. wellFormed t' \<and> size_tab t' = size_tab t \<and> unknownCells t' < unknownCells t)
       (n \<le> unknownCells t) (finalizeCell n t r c)"
    "outcome (\<lambda>t'. wellFormed t' \<and> size_tab t' = size_tab t \<and> unknownCells t' < unknownCells t)
       (n \<le> unknownCells t) (deleteCell n t r c)"
    using assms(1-3) by (auto intro: cascadeSpecD)
  with assms(4) show "finalizeCell n t r c \<noteq> Diverged" "deleteCell n t r c \<noteq> Diverged"
    by (auto simp: outcome_def split: result.splits)
qed

lemma reachable_wellFormed: "reachable t \<Longrightarrow> wellFormed t"
proof (induction rule: reachable.induct)
  case (fresh initValues t)
  then show ?case by (rule newTable_wellFormed)
next
  case (unique t)
  then show ?case by (simp add: wellFormed_finalizeUniqueCells)
next
  case (finalize t row column n t')
  then show ?case using cascade_returned(1)[of t row column n t'] by simp
next
  case (delete t row column n t')
  then show ?case using cascade_returned(1)[of t row column n t'] by simp
qed

lemma unknownInRow_card:
  "unknownInRow t r v = card {c. c < size_tab t \<and> valueAt t r c = v \<and> stateAt t r c = Unknown}"
proof -
  have "{c. stateAt t r c = Unknown \<and> valueAt t r c = v} \<inter> set [0..<size_tab t]
      = {c. c < size_tab t \<and> valueAt t r c = v \<and> stateAt t r c = Unknown}" by auto
  then show ?thesis by (simp add: unknownInRow_def distinct_length_filter)
qed

lemma unknownInColumn_card:
  "unknownInColumn t c v = card {r. r < size_tab t \<and> valueAt t r c = v \<and> stateAt t r c = Unknown}"
proof -
  have "{r. stateAt t r c = Unknown \<and> valueAt t r c = v} \<inter> set [0..<size_tab t]
      = {r. r < size_tab t \<and> valueAt t r c = v \<and> stateAt t r c = Unknown}" by auto
  then show ?thesis by (simp add: unknownInColumn_def distinct_length_filter)
qed

text \<open>
  C6.  On every board that is reached from a freshly constructed one by calls of
  \<open>finalizeUniqueCells\<close>, \<open>finalizeCell\<close> and \<open>deleteCell\<close> that return, each row counter
  \<open>rowCounts[r][v]\<close> is the number of cells of row \<open>r\<close> that have value \<open>v\<close> and state
  \<open>Unknown\<close>, and each column counter \<open>columnCounts[c][v]\<close> is the number of such cells of
  column \<open>c\<close>.
\<close>

theorem counts_are_unknown_cells:
  assumes "reachable t"
  shows "(\<forall>r < size_tab t. \<forall>v \<le> size_tab t.
            unat (rowCounts t ! r ! v) =
              card {c. c < size_tab t \<and> valueAt t r c = v \<and> stateAt t r c = Unknown}) \<and>
         (\<forall>c < size_tab t. \<forall>v \<le> size_tab t.
            unat (columnCounts t ! c ! v) =
              card {r. r < size_tab t \<and> valueAt t r c = v \<and> stateAt t r c = Unknown})"
  using reachable_wellFormed[OF assms]
  by (simp add: wellFormed_def countsOk_iff unknownInRow_card unknownInColumn_card)

theorem counts_are_unknown_cells_witness:
  "(case bindR (newTable [[1, 1, 3], [3, 2, 1], [1, 2, 3]]) (\<lambda>t. finalizeCell 6 t 0 0) of
      Returned t \<Rightarrow>
        reachable t \<and> size_tab t = 3 \<and>
        map (map getState) (cells t) =
          [[Final, Final, Unknown], [Final, Deleted, Final], [Deleted, Final, Unknown]] \<and>
        unat (rowCounts t ! 0 ! 3) = 1 \<and>
        card {c. c < size_tab t \<and> valueAt t 0 c = 3 \<and> stateAt t 0 c = Unknown} = 1 \<and>
        unat (columnCounts t ! 2 ! 3) = 2 \<and>
        card {r. r < size_tab t \<and> valueAt t r 2 = 3 \<and> stateAt t r 2 = Unknown} = 2
    | Raised e \<Rightarrow> False
    | Diverged \<Rightarrow> False)"
proof -
  let ?m = "[[1, 1, 3], [3, 2, 1], [1, 2, 3]]"
  let ?X = "bindR (newTable ?m) (\<lambda>t. finalizeCell 6 t 0 0)"
  have ev: "(case ?X of
      Returned t \<Rightarrow> size_tab t = 3 \<and>
        map (map getState) (cells t) =
          [[Final, Final, Unknown], [Final, Deleted, Final], [Deleted, Final, Unknown]] \<and>
        unat (rowCounts t ! 0 ! 3) = 1 \<and> unat (columnCounts t ! 2 ! 3) = 2
    | Raised e \<Rightarrow> False | Diverged \<Rightarrow> False)"
    by code_simp
  then obtain t1 where t1: "?X = Returned t1" by (cases ?X) auto
  then obtain t0 where t0: "newTable ?m = Returned t0" and f: "finalizeCell 6 t0 0 0 = Returned t1"
    by (cases "newTable ?m") auto
  have r0: "reachable t0" using t0 by (rule reachable.fresh) simp
  have "size_tab t0 = 3" using newTable_wellFormed(2)[OF t0] by simp
  then have r1: "reachable t1" using reachable.finalize[OF r0 _ _ f] by simp
  from ev t1 have v: "size_tab t1 = 3" "unat (rowCounts t1 ! 0 ! 3) = 1" "unat (columnCounts t1 ! 2 ! 3) = 2"
    "map (map getState) (cells t1) =
          [[Final, Final, Unknown], [Final, Deleted, Final], [Deleted, Final, Unknown]]"
    by simp_all
  from counts_are_unknown_cells[OF r1] v(1) have
    "unat (rowCounts t1 ! 0 ! 3) =
       card {c. c < size_tab t1 \<and> valueAt t1 0 c = 3 \<and> stateAt t1 0 c = Unknown}"
    "unat (columnCounts t1 ! 2 ! 3) =
       card {r. r < size_tab t1 \<and> valueAt t1 r 2 = 3 \<and> stateAt t1 r 2 = Unknown}"
    by simp_all
  with v r1 show ?thesis unfolding t1 by simp
qed

subsection \<open>The candidate position\<close>

lemma unknown_cell_exists:
  assumes "unknownOk t" "unknownCellCount t \<noteq> 0"
  shows "\<exists>r c. r < size_tab t \<and> c < size_tab t \<and> stateAt t r c = Unknown"
proof -
  have "unknownCells t \<noteq> 0"
  proof
    assume "unknownCells t = 0"
    with assms show False by (simp add: unknownOk_def)
  qed
  then have "filter (\<lambda>(r, c). stateAt t r c = Unknown) (positions t) \<noteq> []"
    by (simp add: unknownCells_def)
  then obtain r c where "(r, c) \<in> set (positions t)" "stateAt t r c = Unknown"
    unfolding filter_empty_conv by blast
  then show ?thesis unfolding set_positions by blast
qed

text \<open>
  C10.  On a board of the right shape whose counters hold the numbers of \<open>Unknown\<close> cells
  (\<open>countsOk\<close>, \<open>unknownOk\<close>) and whose \<^verbatim>\<open>unknownCellCount\<close> is positive, the position that
  \<open>getFinalizeCandidatePos\<close> returns is inside the grid and its cell is \<open>Unknown\<close>; so neither
  \<open>finalizeCell\<close> nor \<open>deleteCell\<close> at that position raises
  \<^verbatim>\<open>MultipleStateChangeException\<close>, at whatever depth, their nested calls included.  The size
  is below \<open>2 ^ 31\<close>, so that the sum of two counters does not wrap around.
\<close>

theorem candidate_is_unknown:
  assumes "shapeOk t" "countsOk t" "unknownOk t" "size_tab t < 2 ^ 31"
    and "0 < unknownCellCount t"
  shows "case getFinalizeCandidatePos t of
           (row, column) \<Rightarrow>
             row < size_tab t \<and> column < size_tab t \<and> stateAt t row column = Unknown \<and>
             (\<forall>n. finalizeCell n t row column \<noteq> Raised MultipleStateChangeException \<and>
                  deleteCell n t row column \<noteq> Raised MultipleStateChangeException)"
proof -
  from assms(3,5) obtain r0 c0 where
    "r0 < size_tab t" "c0 < size_tab t" "stateAt t r0 c0 = Unknown"
    using unknown_cell_exists[of t] by (auto simp: word_gt_0)
  from candidate_unknown[OF assms(1,2,4) this] obtain row column where
    p: "getFinalizeCandidatePos t = (row, column)" and
    u: "row < size_tab t" "column < size_tab t" "stateAt t row column = Unknown"
    by (cases "getFinalizeCandidatePos t") auto
  have "finalizeCell n t row column \<noteq> Raised MultipleStateChangeException \<and>
        deleteCell n t row column \<noteq> Raised MultipleStateChangeException" for n
  proof -
    have "raisesOnly {e. e \<noteq> MultipleStateChangeException} (finalizeCell n t row column)"
         "raisesOnly {e. e \<noteq> MultipleStateChangeException} (deleteCell n t row column)"
      using cascade_notMSC[of n] u(3) by blast+
    then show ?thesis by (auto simp: raisesOnly_def)
  qed
  with u show ?thesis by (simp add: p)
qed

theorem candidate_is_unknown_witness:
  "shapeOk board22 \<and> countsOk board22 \<and> unknownOk board22 \<and> size_tab board22 < 2 ^ 31 \<and>
   0 < unknownCellCount board22 \<and>
   getFinalizeCandidatePos board22 = (1, 1) \<and> stateAt board22 1 1 = Unknown \<and>
   (\<forall>n. finalizeCell n board22 1 1 \<noteq> Raised MultipleStateChangeException \<and>
        deleteCell n board22 1 1 \<noteq> Raised MultipleStateChangeException)"
proof -
  have wf: "wellFormed board22"
    using newTable_wellFormed(1)[OF newTable_board22] by simp
  then have a: "shapeOk board22" "countsOk board22" "unknownOk board22"
    by (simp_all add: wellFormed_def)
  have b: "size_tab board22 < 2 ^ 31" "0 < unknownCellCount board22"
    by (simp_all add: board22_def)
  have p: "getFinalizeCandidatePos board22 = (1, 1)" by code_simp
  from candidate_is_unknown[OF a b] a b p show ?thesis by simp
qed

subsection \<open>solve returns or raises\<close>

lemma unknownCells_le: "unknownCells t \<le> size_tab t * size_tab t"
  unfolding unknownCells_def
  using length_filter_le[of "\<lambda>(r, c). stateAt t r c = Unknown" "positions t"]
  by (simp add: positions_def)

lemma unat_unknownCellCount:
  assumes "unknownOk t" "size_tab t < 2 ^ 16"
  shows "unat (unknownCellCount t) = unknownCells t"
proof -
  have "size_tab t * size_tab t < 2 ^ 16 * 2 ^ 16"
    using assms(2) by (intro mult_strict_mono) auto
  then have "unknownCells t < 2 ^ 32" using unknownCells_le[of t] by simp
  then show ?thesis using assms(1) by (simp add: unknownOk_def unat_of_nat)
qed

lemma solve_not_diverged:
  "wellFormed t \<Longrightarrow> size_tab t < 2 ^ 16 \<Longrightarrow> unknownCells t + 2 \<le> n \<Longrightarrow> solve n t \<noteq> Diverged"
proof (induction n arbitrary: t)
  case 0
  then show ?case by simp
next
  case (Suc n)
  let ?t = "finalizeUniqueCells t"
  note fu = wellFormed_finalizeUniqueCells[OF Suc.prems(1)]
  show ?case
  proof (cases "isSolved ?t")
    case True
    then show ?thesis by simp
  next
    case False
    have wf: "shapeOk ?t" "countsOk ?t" "unknownOk ?t" using fu(1) by (simp_all add: wellFormed_def)
    have sz: "size_tab ?t < 2 ^ 16" using fu(2) Suc.prems(2) by simp
    then have sz31: "size_tab ?t < 2 ^ 31" by simp
    from False obtain r0 c0 where
      "r0 < size_tab ?t" "c0 < size_tab ?t" "stateAt ?t r0 c0 = Unknown"
      using unknown_cell_exists[OF wf(3)] by (auto simp: isSolved_def)
    from candidate_unknown[OF wf(1,2) sz31 this] obtain row column where
      p: "getFinalizeCandidatePos ?t = (row, column)" and
      u: "row < size_tab ?t" "column < size_tab ?t"
      by (cases "getFinalizeCandidatePos ?t") auto
    have un: "unknownCells ?t < n" using fu(3) Suc.prems(3) by simp
    have rec: "solve n t' \<noteq> Diverged"
      if "finalizeCell n ?t row column = Returned t' \<or> deleteCell n ?t row column = Returned t'" for t'
    proof -
      note c = cascade_returned[OF fu(1) u that]
      show ?thesis using c un sz by (intro Suc.IH) auto
    qed
    have A: "bindR (finalizeCell n ?t row column) (solve n) \<noteq> Diverged"
      using cascade_not_diverged(1)[OF fu(1) u un] rec
      by (cases "finalizeCell n ?t row column") auto
    have B: "bindR (deleteCell n ?t row column) (solve n) \<noteq> Diverged"
      using cascade_not_diverged(2)[OF fu(1) u un] rec
      by (cases "deleteCell n ?t row column") auto
    show ?thesis
      using False p A B
      by (auto simp: Let_def split: result.splits exn.splits)
  qed
qed

text \<open>
  C2.  On a well-formed board of size below \<open>2 ^ 16\<close> (so that \<^verbatim>\<open>size * size\<close> fits the
  \<^verbatim>\<open>unsigned\<close> counter), \<open>solve\<close> returns or raises: a nesting depth of
  \<^verbatim>\<open>unknownCellCount\<close> + 2 calls is never exhausted.  \<open>finalizeUniqueCells\<close> does not increase
  \<^verbatim>\<open>unknownCellCount\<close>, and the board that \<open>finalizeCell\<close> or \<open>deleteCell\<close> returns at the
  candidate position, on which \<open>solve\<close> calls itself, is well-formed, of the same size, and
  has a strictly smaller \<^verbatim>\<open>unknownCellCount\<close> than the board \<open>solve\<close> was called on.
\<close>

theorem solve_terminates:
  assumes "wellFormed t" "size_tab t < 2 ^ 16"
  shows "(\<forall>n. unat (unknownCellCount t) + 2 \<le> n \<longrightarrow> solve n t \<noteq> Diverged) \<and>
         wellFormed (finalizeUniqueCells t) \<and>
         unknownCellCount (finalizeUniqueCells t) \<le> unknownCellCount t \<and>
         (\<forall>n row column t'.
            \<not> isSolved (finalizeUniqueCells t) \<and>
            getFinalizeCandidatePos (finalizeUniqueCells t) = (row, column) \<and>
            (finalizeCell n (finalizeUniqueCells t) row column = Returned t' \<or>
             deleteCell n (finalizeUniqueCells t) row column = Returned t') \<longrightarrow>
            wellFormed t' \<and> size_tab t' = size_tab t \<and>
            unknownCellCount t' < unknownCellCount t)"
proof -
  let ?t = "finalizeUniqueCells t"
  note fu = wellFormed_finalizeUniqueCells[OF assms(1)]
  have uo: "unknownOk t" "unknownOk ?t" using assms(1) fu(1) by (simp_all add: wellFormed_def)
  have sz: "size_tab ?t < 2 ^ 16" using fu(2) assms(2) by simp
  have ut: "unat (unknownCellCount t) = unknownCells t"
    using uo(1) assms(2) by (rule unat_unknownCellCount)
  have ut': "unat (unknownCellCount ?t) = unknownCells ?t"
    using uo(2) sz by (rule unat_unknownCellCount)
  have 1: "\<forall>n. unat (unknownCellCount t) + 2 \<le> n \<longrightarrow> solve n t \<noteq> Diverged"
    using solve_not_diverged[OF assms] ut by simp
  have 2: "unknownCellCount ?t \<le> unknownCellCount t"
    using fu(3) ut ut' by (simp add: word_le_nat_alt)
  have 3: "wellFormed t' \<and> size_tab t' = size_tab t \<and> unknownCellCount t' < unknownCellCount t"
    if ns: "\<not> isSolved ?t" and p: "getFinalizeCandidatePos ?t = (row, column)"
      and r: "finalizeCell n ?t row column = Returned t' \<or> deleteCell n ?t row column = Returned t'"
    for n row column t'
  proof -
    have wf: "shapeOk ?t" "countsOk ?t" using fu(1) by (simp_all add: wellFormed_def)
    from ns obtain r0 c0 where
      "r0 < size_tab ?t" "c0 < size_tab ?t" "stateAt ?t r0 c0 = Unknown"
      using unknown_cell_exists[OF uo(2)] by (auto simp: isSolved_def)
    from candidate_unknown[OF wf _ this] sz p have u: "row < size_tab ?t" "column < size_tab ?t"
      by auto
    note c = cascade_returned[OF fu(1) u r]
    have "unknownOk t'" using c(1) by (simp add: wellFormed_def)
    then have "unat (unknownCellCount t') = unknownCells t'"
      using c(2) sz by (intro unat_unknownCellCount) auto
    then show ?thesis using c fu ut ut' by (simp add: word_less_nat_alt)
  qed
  show ?thesis using 1 2 3 fu(1) by blast
qed

theorem solve_terminates_witness:
  "wellFormed board131 \<and> size_tab board131 < 2 ^ 16 \<and>
   unat (unknownCellCount board131) + 2 = 11 \<and>
   solve 11 board131 \<noteq> Diverged \<and>
   unknownCellCount (finalizeUniqueCells board131) \<le> unknownCellCount board131"
proof -
  have wf: "wellFormed board131"
    using newTable_wellFormed(1)[OF newTable_board131] by simp
  have sz: "size_tab board131 < 2 ^ 16" by (simp add: board131_def)
  have u: "unat (unknownCellCount board131) + 2 = 11" by (simp add: board131_def)
  from solve_terminates[OF wf sz] u have
    "solve 11 board131 \<noteq> Diverged"
    "unknownCellCount (finalizeUniqueCells board131) \<le> unknownCellCount board131"
    by simp_all
  with wf sz u show ?thesis by simp
qed

subsection \<open>A deeper bound gives the same result\<close>

lemma bindR_deeper:
  assumes "bindR m f \<noteq> Diverged" "m \<noteq> Diverged \<Longrightarrow> m' = m"
    and "\<And>x. m = Returned x \<Longrightarrow> f x \<noteq> Diverged \<Longrightarrow> g x = f x"
  shows "bindR m' g = bindR m f"
  using assms by (cases m) auto

lemma foldR_deeper:
  assumes "\<And>x s. f x s \<noteq> Diverged \<Longrightarrow> g x s = f x s"
  shows "foldR f xs s \<noteq> Diverged \<Longrightarrow> foldR g xs s = foldR f xs s"
proof (induction xs arbitrary: s)
  case Nil
  then show ?case by simp
next
  case (Cons x xs)
  from Cons.prems show ?case
    unfolding foldR.simps
    by (rule bindR_deeper) (auto intro: assms Cons.IH)
qed

lemma finalizeCellBody_deeper:
  assumes ext: "\<And>t r c. d t r c \<noteq> Diverged \<Longrightarrow> d' t r c = d t r c"
    and nd: "finalizeCellBody d t row column \<noteq> Diverged"
  shows "finalizeCellBody d' t row column = finalizeCellBody d t row column"
proof (cases "stateAt t row column = Unknown")
  case False
  then show ?thesis by (simp add: finalizeCellBody_def)
next
  case True
  let ?v = "valueAt t row column"
  let ?t1 = "leaveUnknown t row column Final"
  let ?col = "\<lambda>f r t'. if r \<noteq> row \<and> valueAt t' r column = ?v then
                     (case stateAt t' r column of
                        Final \<Rightarrow> Raised (NoSolutionExistsException
                                   ''multiple finalized values found in a column'')
                      | Unknown \<Rightarrow> f t' r column
                      | Deleted \<Rightarrow> Returned t')
                   else Returned t'"
  let ?row = "\<lambda>f c t'. if c \<noteq> column \<and> valueAt t' row c = ?v then
                       (case stateAt t' row c of
                          Final \<Rightarrow> Raised (NoSolutionExistsException
                                     ''multiple finalized values found in a row'')
                        | Unknown \<Rightarrow> f t' row c
                        | Deleted \<Rightarrow> Returned t')
                     else Returned t'"
  let ?A = "\<lambda>f. if columnCounts ?t1 ! column ! ?v > 0 then foldR (?col f) [0..<size_tab t] ?t1
                 else Returned ?t1"
  let ?B = "\<lambda>f t2. if rowCounts t2 ! row ! ?v > 0 then foldR (?row f) [0..<size_tab t] t2
                 else Returned t2"
  have body: "finalizeCellBody f t row column = bindR (?A f) (?B f)" for f
    using True by (simp add: finalizeCellBody_def Let_def)
  have col: "?col d r s \<noteq> Diverged \<Longrightarrow> ?col d' r s = ?col d r s" for r s
    by (auto simp: ext split: State.splits)
  have row: "?row d c s \<noteq> Diverged \<Longrightarrow> ?row d' c s = ?row d c s" for c s
    by (auto simp: ext split: State.splits)
  have A: "?A d \<noteq> Diverged \<Longrightarrow> ?A d' = ?A d"
    using foldR_deeper[of "?col d" "?col d'", OF col] by auto
  have B: "?B d t2 \<noteq> Diverged \<Longrightarrow> ?B d' t2 = ?B d t2" for t2
    using foldR_deeper[of "?row d" "?row d'", OF row] by auto
  have "bindR (?A d') (?B d') = bindR (?A d) (?B d)"
    using nd[unfolded body] by (rule bindR_deeper) (use A B in auto)
  then show ?thesis by (simp only: body)
qed

lemma deleteCellBody_deeper:
  assumes ext: "\<And>t r c. f t r c \<noteq> Diverged \<Longrightarrow> f' t r c = f t r c"
    and nd: "deleteCellBody f t row column \<noteq> Diverged"
  shows "deleteCellBody f' t row column = deleteCellBody f t row column"
proof (cases "stateAt t row column = Unknown \<and> \<not> hasDeletedNeighbor t row column")
  case False
  then show ?thesis by (auto simp: deleteCellBody_def)
next
  case True
  let ?step = "\<lambda>g. (\<lambda>(rOffs, cOffs) t'.
             let r = uadd row rOffs; c = uadd column cOffs
             in if inGrid t' r c \<and> stateAt t' (nat r) (nat c) = Unknown
                then g t' (nat r) (nat c)
                else Returned t')"
  let ?rest = "\<lambda>g ds. foldR (?step g) (offsets (0, 1))
                 (leaveUnknown (t\<lparr>deletedTrees := ds\<rparr>) row column Deleted)"
  have body: "deleteCellBody g t row column = bindR (joinDeleted t row column) (?rest g)" for g
    using True by (simp add: deleteCellBody_def)
  have step: "?step f x s \<noteq> Diverged \<Longrightarrow> ?step f' x s = ?step f x s" for x s
    by (cases x) (auto simp: ext Let_def)
  have rest: "?rest f ds \<noteq> Diverged \<Longrightarrow> ?rest f' ds = ?rest f ds" for ds
    using foldR_deeper[of "?step f" "?step f'", OF step] by auto
  have "bindR (joinDeleted t row column) (?rest f') = bindR (joinDeleted t row column) (?rest f)"
    using nd[unfolded body] by (rule bindR_deeper) (use rest in auto)
  then show ?thesis by (simp only: body)
qed

lemma cascade_Suc:
  "(\<forall>t r c. finalizeCell n t r c \<noteq> Diverged \<longrightarrow> finalizeCell (Suc n) t r c = finalizeCell n t r c) \<and>
   (\<forall>t r c. deleteCell n t r c \<noteq> Diverged \<longrightarrow> deleteCell (Suc n) t r c = deleteCell n t r c)"
proof (induction n)
  case 0
  then show ?case by simp
next
  case (Suc n)
  have "finalizeCell (Suc (Suc n)) t r c = finalizeCell (Suc n) t r c"
    if "finalizeCell (Suc n) t r c \<noteq> Diverged" for t r c
    using that Suc finalizeCellBody_deeper[of "deleteCell n" "deleteCell (Suc n)" t r c]
    by simp
  moreover have "deleteCell (Suc (Suc n)) t r c = deleteCell (Suc n) t r c"
    if "deleteCell (Suc n) t r c \<noteq> Diverged" for t r c
    using that Suc deleteCellBody_deeper[of "finalizeCell n" "finalizeCell (Suc n)" t r c]
    by simp
  ultimately show ?case by blast
qed

lemma finalizeCell_deeper:
  "finalizeCell n t r c \<noteq> Diverged \<Longrightarrow> finalizeCell (n + k) t r c = finalizeCell n t r c"
  by (induction k) (use cascade_Suc in simp_all)

lemma deleteCell_deeper:
  "deleteCell n t r c \<noteq> Diverged \<Longrightarrow> deleteCell (n + k) t r c = deleteCell n t r c"
  by (induction k) (use cascade_Suc in simp_all)

lemma solve_Suc: "solve n t \<noteq> Diverged \<Longrightarrow> solve (Suc n) t = solve n t"
proof (induction n arbitrary: t)
  case 0
  then show ?case by simp
next
  case (Suc n)
  let ?t = "finalizeUniqueCells t"
  show ?case
  proof (cases "isSolved ?t")
    case True
    then show ?thesis by simp
  next
    case False
    obtain row column where p: "getFinalizeCandidatePos ?t = (row, column)"
      by (cases "getFinalizeCandidatePos ?t")
    let ?att = "\<lambda>k. bindR (finalizeCell k ?t row column) (solve k)"
    let ?han = "\<lambda>k. bindR (deleteCell k ?t row column) (solve k)"
    have s: "solve (Suc k) t =
        (case ?att k of Raised (NoSolutionExistsException reason) \<Rightarrow> ?han k | res \<Rightarrow> res)" for k
      using False p by (simp add: Let_def)
    have tr: "?att n \<noteq> Diverged \<Longrightarrow> ?att (Suc n) = ?att n"
      by (rule bindR_deeper) (use cascade_Suc[of n] Suc.IH in auto)
    have han: "?han n \<noteq> Diverged \<Longrightarrow> ?han (Suc n) = ?han n"
      by (rule bindR_deeper) (use cascade_Suc[of n] Suc.IH in auto)
    from Suc.prems[unfolded s] have t1: "?att n \<noteq> Diverged"
      by (auto split: result.splits)
    from Suc.prems[unfolded s] have t2: "?han n \<noteq> Diverged"
      if "?att n = Raised (NoSolutionExistsException reason)" for reason
      using that by simp
    show ?thesis
      unfolding s tr[OF t1] using han t2
      by (auto split: result.splits exn.splits)
  qed
qed

lemma solve_deeper: "solve n t \<noteq> Diverged \<Longrightarrow> solve (n + k) t = solve n t"
  by (induction k) (simp_all add: solve_Suc del: solve.simps)

subsection \<open>findSet and linkSets on the roots\<close>

lemma rootIn_self: "rootIn ps k r r \<Longrightarrow> k = 0"
  using rootIn_root[of ps k r r] rootIn_det[of ps k r r 0 r] by simp

lemma forest_findRoot:
  "forestOk ps \<Longrightarrow> inElementRange ps x \<Longrightarrow> \<exists>k y. rootIn ps k x y \<and> findRoot ps x = Some y"
  unfolding forestOk_def using rootIn_findRoot by blast

lemma findRoot_root:
  assumes "forestOk ps" "inElementRange ps x" "findRoot ps x = Some y"
  shows "rootIn ps 0 y y"
proof -
  from forest_findRoot[OF assms(1,2)] obtain k y' where "rootIn ps k x y'" "findRoot ps x = Some y'"
    by blast
  with assms(3) show ?thesis using rootIn_root[of ps k x y'] by simp
qed

lemma roots_kept:
  assumes "forestOk ps" "\<forall>x y k. rootIn ps k x y \<longrightarrow> (\<exists>k'. rootIn ps' k' x y)"
    and "inElementRange ps x"
  shows "findRoot ps' x = findRoot ps x"
proof -
  from forest_findRoot[OF assms(1,3)] obtain k y where 1: "rootIn ps k x y" "findRoot ps x = Some y"
    by blast
  with assms(2) obtain k' where "rootIn ps' k' x y" by blast
  then show ?thesis using 1 rootIn_findRoot by simp
qed

lemma compress_roots:
  "rootIn ps k e r \<Longrightarrow> forestOk ps \<Longrightarrow>
   \<exists>ps'. compress ps r e = Some ps' \<and> length ps' = length ps \<and> forestOk ps' \<and>
         (\<forall>x y j. rootIn ps j x y \<longrightarrow> (\<exists>j'. rootIn ps' j' x y))"
proof (induction k arbitrary: ps e)
  case 0
  then show ?case by (subst compress.simps) auto
next
  case (Suc k)
  let ?ps1 = "ps[nat e := r]"
  from Suc.prems have p: "rootIn ps k (ps ! nat e) r" and ge: "ps ! nat e \<ge> 0" by auto
  have "rootIn ?ps1 k (ps ! nat e) r"
    using rootIn_update_deeper[OF p Suc.prems(1)] by simp
  moreover have "forestOk ?ps1" using Suc.prems by (auto intro: forestOk_point_to_root)
  ultimately obtain ps' where c: "compress ?ps1 r (ps ! nat e) = Some ps'" "length ps' = length ?ps1"
     "forestOk ps'" "\<forall>x y j. rootIn ?ps1 j x y \<longrightarrow> (\<exists>j'. rootIn ps' j' x y)"
    using Suc.IH by blast
  have "\<exists>j'. rootIn ps' j' x y" if "rootIn ps j x y" for x y j
    using rootIn_point_to_root[OF Suc.prems(1) that] c(4) by blast
  with c ge show ?case by (subst compress.simps) auto
qed

lemma findSet_roots:
  assumes f: "forestOk ps" and e: "inElementRange ps e"
  shows "\<exists>r ps'. findSet ps e = Returned (r, ps') \<and> findRoot ps e = Some r \<and>
           forestOk ps' \<and> length ps' = length ps \<and>
           (\<forall>x. inElementRange ps x \<longrightarrow> findRoot ps' x = findRoot ps x)"
proof -
  from forest_findRoot[OF f e] obtain k r where kr: "rootIn ps k e r" "findRoot ps e = Some r"
    by blast
  from compress_roots[OF kr(1) f] obtain ps' where c: "compress ps r e = Some ps'"
    "length ps' = length ps" "forestOk ps'"
    "\<forall>x y j. rootIn ps j x y \<longrightarrow> (\<exists>j'. rootIn ps' j' x y)"
    by blast
  have "findSet ps e = Returned (r, ps')" using e kr(2) c(1) by (simp add: findSet_def)
  moreover have "findRoot ps' x = findRoot ps x" if "inElementRange ps x" for x
    using roots_kept[OF f c(4) that] .
  ultimately show ?thesis using kr(2) c(2,3) by blast
qed

lemma linkSets_roots:
  assumes f: "forestOk ps" and a: "rootIn ps 0 a a" and b: "rootIn ps 0 b b" and ab: "a \<noteq> b"
  shows "\<exists>ps' l w. linkSets ps a b = Returned ps' \<and> forestOk ps' \<and> length ps' = length ps \<and>
           (l = a \<and> w = b \<or> l = b \<and> w = a) \<and>
           (\<forall>x. inElementRange ps x \<longrightarrow>
              findRoot ps' x = (if findRoot ps x = Some l then Some w else findRoot ps x))"
proof -
  have link: "findRoot (ps[nat l := w]) x = (if findRoot ps x = Some l then Some w else findRoot ps x)"
    if l: "rootIn ps 0 l l" and w: "rootIn ps 0 w w" and lw: "l \<noteq> w" and x: "inElementRange ps x"
    for l w x
  proof -
    from forest_findRoot[OF f x] obtain k y where 1: "rootIn ps k x y" "findRoot ps x = Some y"
      by blast
    from rootIn_link[OF l w lw 1(1)] obtain k' where
      "rootIn (ps[nat l := w]) k' x (if y = l then w else y)" ..
    from rootIn_findRoot[OF this] 1(2) show ?thesis by auto
  qed
  have ra: "inElementRange ps a" "inElementRange ps b" "ps ! nat a < 0" "ps ! nat b < 0"
    using a b by auto
  let ?r1 = "- (ps ! nat a) - 1" and ?r2 = "- (ps ! nat b) - 1"
  consider "?r1 < ?r2" | "\<not> ?r1 < ?r2" "?r2 < ?r1" | "\<not> ?r1 < ?r2" "\<not> ?r2 < ?r1" by blast
  then show ?thesis
  proof cases
    case 1
    then have "linkSets ps a b = Returned (ps[nat a := b])"
      using ra ab by (simp add: linkSets_def Let_def)
    moreover have "forestOk (ps[nat a := b])" using f a b ab by (rule forestOk_link)
    ultimately show ?thesis using link[OF a b ab] by (intro exI[of _ "ps[nat a := b]"] exI[of _ a] exI[of _ b]) simp
  next
    case 2
    then have "linkSets ps a b = Returned (ps[nat b := a])"
      using ra ab by (simp add: linkSets_def Let_def)
    moreover have "forestOk (ps[nat b := a])" using f b a ab[symmetric] by (rule forestOk_link)
    ultimately show ?thesis using link[OF b a ab[symmetric]]
      by (intro exI[of _ "ps[nat b := a]"] exI[of _ b] exI[of _ a]) simp
  next
    case 3
    let ?ps1 = "ps[nat a := b]"
    let ?ps2 = "?ps1[nat b := ps ! nat b - 1]"
    have l: "linkSets ps a b = Returned ?ps2"
      using 3 ra ab by (simp add: linkSets_def Let_def)
    have f1: "forestOk ?ps1" using f a b ab by (rule forestOk_link)
    have b1: "rootIn ?ps1 0 b b" using b ab[symmetric] ra(1) by (rule rootIn_other_root)
    have z: "ps ! nat b - 1 < 0" using ra by simp
    have f2: "forestOk ?ps2" using forestOk_rerank[OF f1 b1 z] .
    have "findRoot ?ps2 x = (if findRoot ps x = Some a then Some b else findRoot ps x)"
      if x: "inElementRange ps x" for x
    proof -
      have "inElementRange ?ps1 x" using x by (simp add: inElementRange_def)
      from forest_findRoot[OF f1 this] obtain k y where 1: "rootIn ?ps1 k x y" "findRoot ?ps1 x = Some y"
        by blast
      from rootIn_rerank[OF b1 z 1(1)] have "findRoot ?ps2 x = Some y" by (rule rootIn_findRoot)
      with 1(2) link[OF a b ab x] show ?thesis by simp
    qed
    with l f2 show ?thesis by (intro exI[of _ ?ps2] exI[of _ a] exI[of _ b]) simp
  qed
qed

lemma unionSets_returns:
  assumes f: "forestOk ps" and a: "inElementRange ps a" and b: "inElementRange ps b"
  shows "\<exists>ps'. unionSets ps a b = Returned ps' \<and> forestOk ps' \<and> length ps' = length ps"
proof -
  from findSet_roots[OF f a] obtain r1 ps1 where 1: "findSet ps a = Returned (r1, ps1)"
    "findRoot ps a = Some r1" "forestOk ps1" "length ps1 = length ps"
    "\<forall>x. inElementRange ps x \<longrightarrow> findRoot ps1 x = findRoot ps x" by blast
  have b1: "inElementRange ps1 b" using b 1(4) by (simp add: inElementRange_def)
  from findSet_roots[OF 1(3) b1] obtain r2 ps2 where 2: "findSet ps1 b = Returned (r2, ps2)"
    "findRoot ps1 b = Some r2" "forestOk ps2" "length ps2 = length ps1"
    "\<forall>x. inElementRange ps1 x \<longrightarrow> findRoot ps2 x = findRoot ps1 x" by blast
  have r1: "rootIn ps 0 r1 r1" using findRoot_root[OF f a 1(2)] .
  then have r1i: "inElementRange ps r1" "inElementRange ps1 r1"
    using 1(4) by (simp_all add: inElementRange_def)
  have "findRoot ps r1 = Some r1" using rootIn_findRoot[OF r1] .
  then have "findRoot ps2 r1 = Some r1" using 1(5) 2(5) r1i by simp
  moreover have "inElementRange ps2 r1" using r1i 2(4) by (simp add: inElementRange_def)
  ultimately have r1': "rootIn ps2 0 r1 r1" using findRoot_root[OF 2(3)] by blast
  have "findRoot ps2 b = Some r2" using 2(2,5) b1 by simp
  moreover have "inElementRange ps2 b" using b1 2(4) by (simp add: inElementRange_def)
  ultimately have r2': "rootIn ps2 0 r2 r2" using findRoot_root[OF 2(3)] by blast
  have u: "unionSets ps a b = linkSets ps2 r1 r2" by (simp add: unionSets_def 1(1) 2(1))
  show ?thesis
  proof (cases "r1 = r2")
    case True
    then have "linkSets ps2 r1 r2 = Returned ps2" using r2' by (simp add: linkSets_def)
    then show ?thesis using u 2(3,4) 1(4) by simp
  next
    case False
    from linkSets_roots[OF 2(3) r1' r2' False] show ?thesis using u 2(4) 1(4) by auto
  qed
qed

subsection \<open>The neighbours of a cell\<close>

lemma uadd_step:
  assumes "x < sz" "sz < 2 ^ 32" "d = - 1 \<or> d = 0 \<or> d = 1"
  shows "0 \<le> uadd x d"
    and "uadd x d < int sz \<longleftrightarrow> 0 \<le> int x + d \<and> int x + d < int sz"
    and "0 \<le> int x + d \<Longrightarrow> int x + d < int sz \<Longrightarrow> uadd x d = int x + d"
proof -
  have sz: "int sz < 4294967296" using assms(2) by simp
  show "0 \<le> uadd x d" by (simp add: uadd_def)
  show "uadd x d < int sz \<longleftrightarrow> 0 \<le> int x + d \<and> int x + d < int sz"
  proof (cases "0 \<le> int x + d")
    case True
    then have "uadd x d = int x + d" using assms sz by (auto simp: uadd_def)
    then show ?thesis using True by simp
  next
    case False
    then have "int x + d = - 1" using assms(3) by auto
    then have "uadd x d = 4294967295" by (simp add: uadd_def)
    then show ?thesis using False sz by simp
  qed
  show "uadd x d = int x + d" if "0 \<le> int x + d" "int x + d < int sz"
    using that sz by (simp add: uadd_def)
qed

lemma offsets_lists:
  "offsets (0, - 1) = [(0, - 1), (1, 0), (0, 1), (- 1, 0)]"
  "offsets (- 1, - 1) = [(- 1, - 1), (1, - 1), (1, 1), (- 1, 1)]"
  "offsets (0, 1) = [(0, 1), (- 1, 0), (0, - 1), (1, 0)]"
  by (simp_all add: offsets_def turn_def)

lemma code_neighbors:
  assumes rc: "row < size_tab t" "column < size_tab t" and sz: "size_tab t < 2 ^ 32"
  shows "(\<forall>(dr, dc) \<in> set offs. (dr = - 1 \<or> dr = 0 \<or> dr = 1) \<and> (dc = - 1 \<or> dc = 0 \<or> dc = 1)) \<Longrightarrow>
    map (\<lambda>(ro, co). (nat (uadd row ro), nat (uadd column co)))
      (filter (\<lambda>(ro, co). inGrid t (uadd row ro) (uadd column co) \<and>
                 stateAt t (nat (uadd row ro)) (nat (uadd column co)) = s) offs)
    = cellsIn t s (neighborsAt t row column offs)"
proof (induction offs)
  case Nil
  then show ?case by (simp add: cellsIn_def neighborsAt_def)
next
  case (Cons off offs)
  obtain dr dc where off: "off = (dr, dc)" by (cases off)
  from Cons.prems have d: "dr = - 1 \<or> dr = 0 \<or> dr = 1" "dc = - 1 \<or> dc = 0 \<or> dc = 1"
    by (auto simp: off)
  note r = uadd_step[OF rc(1) sz d(1)] and c = uadd_step[OF rc(2) sz d(2)]
  let ?in = "0 \<le> int row + dr \<and> int row + dr < int (size_tab t) \<and>
             0 \<le> int column + dc \<and> int column + dc < int (size_tab t)"
  have g: "inGrid t (uadd row dr) (uadd column dc) \<longleftrightarrow> ?in"
    using r(1,2) c(1,2) by (auto simp: inGrid_def)
  have e: "uadd row dr = int row + dr" "uadd column dc = int column + dc" if ?in
    using that r(3) c(3) by auto
  from Cons have IH: "map (\<lambda>(ro, co). (nat (uadd row ro), nat (uadd column co)))
      (filter (\<lambda>(ro, co). inGrid t (uadd row ro) (uadd column co) \<and>
                 stateAt t (nat (uadd row ro)) (nat (uadd column co)) = s) offs)
    = cellsIn t s (neighborsAt t row column offs)" by simp
  show ?case
  proof (cases ?in)
    case True
    with g e IH show ?thesis by (simp add: off cellsIn_def neighborsAt_def)
  next
    case False
    with g IH show ?thesis by (simp add: off cellsIn_def neighborsAt_def)
  qed
qed

lemma hasDeletedNeighbor_iff:
  assumes "row < size_tab t" "column < size_tab t" "size_tab t < 2 ^ 32"
  shows "hasDeletedNeighbor t row column \<longleftrightarrow> cellsIn t Deleted (orthogonalNeighbors t row column) \<noteq> []"
proof -
  let ?P = "\<lambda>(ro, co). inGrid t (uadd row ro) (uadd column co) \<and>
                 stateAt t (nat (uadd row ro)) (nat (uadd column co)) = Deleted"
  have "hasDeletedNeighbor t row column \<longleftrightarrow> filter ?P (offsets (0, - 1)) \<noteq> []"
    unfolding hasDeletedNeighbor_def Let_def list_ex_iff filter_empty_conv
    by (auto simp: case_prod_beta)
  also have "\<dots> \<longleftrightarrow> map (\<lambda>(ro, co). (nat (uadd row ro), nat (uadd column co)))
      (filter ?P (offsets (0, - 1))) \<noteq> []" by simp
  also have "\<dots> \<longleftrightarrow> cellsIn t Deleted (orthogonalNeighbors t row column) \<noteq> []"
    unfolding offsets_lists orthogonalNeighbors_def
    by (subst code_neighbors[OF assms]) simp_all
  finally show ?thesis .
qed

lemma neighborsAt_inGrid:
  "(r, c) \<in> set (neighborsAt t row column offs) \<Longrightarrow> r < size_tab t \<and> c < size_tab t"
  by (auto simp: neighborsAt_def)

lemma sint_word_of_nat: "n < 2 ^ 31 \<Longrightarrow> sint (word_of_nat n :: u32) = int n"
  by (simp add: signed_of_nat signed_take_bit_int_eq_self)

lemma cellIndex_small:
  assumes "r < sz" "c < sz" "sz < 2 ^ 15"
  shows "cellIndex sz r c = int (r * sz + c + 1)" and "r * sz + c + 1 < sz * sz + 1"
proof -
  have 1: "r * sz + c + 1 \<le> sz * sz"
  proof -
    have "Suc r * sz \<le> sz * sz" using assms(1) by (metis Suc_leI mult_le_mono1)
    then show ?thesis using assms(2) by simp
  qed
  have "sz * sz < 2 ^ 15 * 2 ^ 15"
    using assms(3) by (intro mult_strict_mono) simp_all
  then have 2: "sz * sz < 2 ^ 30" by simp
  from 1 2 have 3: "r * sz + c + 1 < 2 ^ 31" by simp
  show "r * sz + c + 1 < sz * sz + 1" using 1 by simp
  show "cellIndex sz r c = int (r * sz + c + 1)"
    unfolding cellIndex_def using 3 by (rule sint_word_of_nat)
qed

lemma onBorder_iff:
  assumes "row < size_tab t" "size_tab t < 2 ^ 32"
  shows "onBorder t row column \<longleftrightarrow> onOuterRing t row column"
proof -
  have "0 < size_tab t" using assms by simp
  then have "uadd (size_tab t) (- 1) = int (size_tab t) - 1"
    using assms(2) by (simp add: uadd_def)
  then show ?thesis by (auto simp: onBorder_def onOuterRing_def)
qed

subsection \<open>The loop over the diagonal neighbours\<close>

lemma distinct_after_link:
  assumes ne: "g d \<noteq> g c"
    and lw: "Some l = g d \<and> Some w = g c \<or> Some l = g c \<and> Some w = g d"
    and g': "\<forall>x \<in> set (c # N). g' x = (if g x = Some l then Some w else g x)"
  shows "distinct (map g (c # d # N)) \<longleftrightarrow> distinct (map g' (c # N))"
proof -
  have c': "g' c = Some w" using lw g' by auto
  have A: "g' x = Some w \<longleftrightarrow> g x = g c \<or> g x = g d" if "x \<in> set N" for x
    using that lw g' ne by auto
  show ?thesis
  proof (cases "\<forall>x \<in> set N. g x \<noteq> g c \<and> g x \<noteq> g d")
    case True
    then have "g' x = g x" if "x \<in> set N" for x using that lw g' by auto
    then have m: "map g' N = map g N" by simp
    have "g' c \<notin> g' ` set N"
    proof
      assume "g' c \<in> g' ` set N"
      then obtain x where "x \<in> set N" "g' x = Some w" using c' by auto
      with A True show False by blast
    qed
    then have 1: "distinct (map g' (c # N)) = distinct (map g N)"
      unfolding m[symmetric] by simp
    have "g c \<notin> g ` set N" "g d \<notin> g ` set N" using True by auto
    then have 2: "distinct (map g (c # d # N)) = distinct (map g N)"
      using ne by auto
    show ?thesis unfolding 1 2 ..
  next
    case False
    then obtain x where x: "x \<in> set N" "g x = g c \<or> g x = g d" by blast
    then have "g' x = g' c" using A c' by simp
    then have "g' c \<in> g' ` set N" using x(1) by (metis imageI)
    moreover have "g c \<in> g ` set N \<or> g d \<in> g ` set N" using x by (metis imageI)
    ultimately show ?thesis by auto
  qed
qed

lemma joinDiagonal_Deleted:
  assumes f: "forestOk ds"
    and g: "inGrid t (uadd row ro) (uadd column co)"
           "stateAt t (nat (uadd row ro)) (nat (uadd column co)) = Deleted"
    and c: "inElementRange ds cs" "cs = cellIndex (size_tab t) row column"
    and d: "inElementRange ds d"
           "d = cellIndex (size_tab t) (nat (uadd row ro)) (nat (uadd column co))"
  shows "if findRoot ds d = findRoot ds cs
         then joinDiagonal t row column (ro, co) ds =
                Raised (NoSolutionExistsException ''circular neighbors found'')
         else \<exists>ds' l w. joinDiagonal t row column (ro, co) ds = Returned ds' \<and>
                forestOk ds' \<and> length ds' = length ds \<and>
                (Some l = findRoot ds d \<and> Some w = findRoot ds cs \<or>
                 Some l = findRoot ds cs \<and> Some w = findRoot ds d) \<and>
                (\<forall>x. inElementRange ds x \<longrightarrow>
                   findRoot ds' x = (if findRoot ds x = Some l then Some w else findRoot ds x))"
proof -
  from findSet_roots[OF f d(1)] obtain rd ds1 where 1: "findSet ds d = Returned (rd, ds1)"
    "findRoot ds d = Some rd" "forestOk ds1" "length ds1 = length ds"
    "\<forall>x. inElementRange ds x \<longrightarrow> findRoot ds1 x = findRoot ds x" by blast
  have r1: "inElementRange ds1 x \<longleftrightarrow> inElementRange ds x" for x
    using 1(4) by (simp add: inElementRange_def)
  from findSet_roots[OF 1(3), of cs] c(1) r1 obtain rc ds2 where 2:
    "findSet ds1 cs = Returned (rc, ds2)"
    "findRoot ds1 cs = Some rc" "forestOk ds2" "length ds2 = length ds1"
    "\<forall>x. inElementRange ds1 x \<longrightarrow> findRoot ds2 x = findRoot ds1 x" by blast
  have r2: "inElementRange ds2 x \<longleftrightarrow> inElementRange ds x" for x
    using 1(4) 2(4) by (simp add: inElementRange_def)
  have k: "findRoot ds2 x = findRoot ds x" if "inElementRange ds x" for x
    using that 1(5) 2(5) r1 by simp
  have rc: "findRoot ds cs = Some rc" using 2(2) 1(5) c(1) by simp
  have j: "joinDiagonal t row column (ro, co) ds =
      (if rd \<noteq> rc then linkSets ds2 rd rc
       else Raised (NoSolutionExistsException ''circular neighbors found''))"
    using g 1(1) 2(1) by (simp add: joinDiagonal_def Let_def c(2)[symmetric] d(2)[symmetric])
  show ?thesis
  proof (cases "rd = rc")
    case True
    then show ?thesis using j 1(2) rc by simp
  next
    case False
    have "rootIn ds2 0 rd rd"
      using findRoot_root[OF 2(3), of d rd] k[OF d(1)] 1(2) r2 d(1) by simp
    moreover have "rootIn ds2 0 rc rc"
      using findRoot_root[OF 2(3), of cs rc] k[OF c(1)] rc r2 c(1) by simp
    ultimately obtain ds' l w where 3: "linkSets ds2 rd rc = Returned ds'" "forestOk ds'"
      "length ds' = length ds2" "l = rd \<and> w = rc \<or> l = rc \<and> w = rd"
      "\<forall>x. inElementRange ds2 x \<longrightarrow>
              findRoot ds' x = (if findRoot ds2 x = Some l then Some w else findRoot ds2 x)"
      using linkSets_roots[OF 2(3) _ _ False] by blast
    have "findRoot ds' x = (if findRoot ds x = Some l then Some w else findRoot ds x)"
      if "inElementRange ds x" for x
      using that 3(5) k r2 by simp
    moreover have "Some l = findRoot ds d \<and> Some w = findRoot ds cs \<or>
                   Some l = findRoot ds cs \<and> Some w = findRoot ds d"
      using 3(4) 1(2) rc by auto
    moreover have "joinDiagonal t row column (ro, co) ds = Returned ds'"
      using j False 3(1) by simp
    moreover have "length ds' = length ds" using 3(3) 2(4) 1(4) by simp
    ultimately show ?thesis using False 1(2) rc 3(2) by auto
  qed
qed

lemma joinDiagonal_fold:
  fixes t row column
  defines "P \<equiv> \<lambda>(ro, co). inGrid t (uadd row ro) (uadd column co) \<and>
                   stateAt t (nat (uadd row ro)) (nat (uadd column co)) = Deleted"
    and "idx \<equiv> \<lambda>(ro, co). cellIndex (size_tab t) (nat (uadd row ro)) (nat (uadd column co))"
    and "cs \<equiv> cellIndex (size_tab t) row column"
  shows "forestOk ds \<Longrightarrow> inElementRange ds cs \<Longrightarrow>
     (\<forall>off \<in> set offs. P off \<longrightarrow> inElementRange ds (idx off)) \<Longrightarrow>
     (if distinct (map (findRoot ds) (cs # map idx (filter P offs)))
      then \<exists>ds'. foldR (joinDiagonal t row column) offs ds = Returned ds' \<and>
             forestOk ds' \<and> length ds' = length ds
      else foldR (joinDiagonal t row column) offs ds =
             Raised (NoSolutionExistsException ''circular neighbors found''))"
proof (induction offs arbitrary: ds)
  case Nil
  then show ?case by simp
next
  case (Cons off offs)
  obtain ro co where off: "off = (ro, co)" by (cases off)
  show ?case
  proof (cases "P off")
    case False
    then have "joinDiagonal t row column off ds = Returned ds"
      by (auto simp: joinDiagonal_def off P_def Let_def)
    then have "foldR (joinDiagonal t row column) (off # offs) ds =
               foldR (joinDiagonal t row column) offs ds" by simp
    moreover have "filter P (off # offs) = filter P offs" using False by simp
    ultimately show ?thesis using Cons.IH[of ds] Cons.prems by simp
  next
    case True
    let ?d = "idx off"
    let ?N = "map idx (filter P offs)"
    have N: "map idx (filter P (off # offs)) = ?d # ?N" using True by simp
    have d: "inElementRange ds ?d" using Cons.prems(3) True by simp
    have g: "inGrid t (uadd row ro) (uadd column co)"
            "stateAt t (nat (uadd row ro)) (nat (uadd column co)) = Deleted"
      using True by (simp_all add: P_def off)
    have di: "?d = cellIndex (size_tab t) (nat (uadd row ro)) (nat (uadd column co))"
      by (simp add: idx_def off)
    note step = joinDiagonal_Deleted[OF Cons.prems(1) g Cons.prems(2) cs_def[THEN meta_eq_to_obj_eq] d di]
    show ?thesis
    proof (cases "findRoot ds ?d = findRoot ds cs")
      case True
      with step have "joinDiagonal t row column off ds =
          Raised (NoSolutionExistsException ''circular neighbors found'')" by (simp add: off)
      then have "foldR (joinDiagonal t row column) (off # offs) ds =
          Raised (NoSolutionExistsException ''circular neighbors found'')" by simp
      moreover have "\<not> distinct (map (findRoot ds) (cs # ?d # ?N))" using True by simp
      ultimately show ?thesis unfolding N by simp
    next
      case False
      with step obtain ds' l w where s: "joinDiagonal t row column off ds = Returned ds'"
        "forestOk ds'" "length ds' = length ds"
        "Some l = findRoot ds ?d \<and> Some w = findRoot ds cs \<or>
         Some l = findRoot ds cs \<and> Some w = findRoot ds ?d"
        "\<forall>x. inElementRange ds x \<longrightarrow>
           findRoot ds' x = (if findRoot ds x = Some l then Some w else findRoot ds x)"
        unfolding off by auto
      have rg: "inElementRange ds' x \<longleftrightarrow> inElementRange ds x" for x
        using s(3) by (simp add: inElementRange_def)
      have inN: "inElementRange ds x" if "x \<in> set (cs # ?N)" for x
        using that Cons.prems(2,3) by auto
      have fo: "foldR (joinDiagonal t row column) (off # offs) ds =
                foldR (joinDiagonal t row column) offs ds'" using s(1) by simp
      have "distinct (map (findRoot ds) (cs # ?d # ?N)) \<longleftrightarrow>
            distinct (map (findRoot ds') (cs # ?N))"
        using False s(4) s(5) inN by (intro distinct_after_link[where l = l and w = w]) auto
      moreover have "if distinct (map (findRoot ds') (cs # ?N))
         then \<exists>ds''. foldR (joinDiagonal t row column) offs ds' = Returned ds'' \<and>
                forestOk ds'' \<and> length ds'' = length ds'
         else foldR (joinDiagonal t row column) offs ds' =
                Raised (NoSolutionExistsException ''circular neighbors found'')"
        using Cons.prems(2,3) s(2) rg by (intro Cons.IH) auto
      ultimately show ?thesis unfolding N fo using s(3) by auto
    qed
  qed
qed

subsection \<open>The checks of deleteCell\<close>

lemma joinDeleted_checks:
  assumes f: "forestOk (deletedTrees t)"
    and len: "length (deletedTrees t) = size_tab t * size_tab t + 1"
    and small: "size_tab t < 2 ^ 15"
    and rc: "row < size_tab t" "column < size_tab t"
  shows "\<exists>ds0. (if onOuterRing t row column
                then unionSets (deletedTrees t) 0 (treeElement t (row, column))
                else Returned (deletedTrees t)) = Returned ds0 \<and>
          (if distinct (map (findRoot ds0) (treeElement t (row, column) #
                  map (treeElement t) (cellsIn t Deleted (diagonalNeighbors t row column))))
           then \<exists>ds. joinDeleted t row column = Returned ds \<and> forestOk ds
           else joinDeleted t row column =
                  Raised (NoSolutionExistsException ''circular neighbors found''))"
proof -
  let ?sz = "size_tab t"
  let ?cs = "cellIndex ?sz row column"
  let ?P = "\<lambda>(ro, co). inGrid t (uadd row ro) (uadd column co) \<and>
                   stateAt t (nat (uadd row ro)) (nat (uadd column co)) = Deleted"
  let ?idx = "\<lambda>(ro, co). cellIndex ?sz (nat (uadd row ro)) (nat (uadd column co))"
  let ?pos = "\<lambda>(ro, co). (nat (uadd row ro), nat (uadd column co))"
  let ?offs = "[(- 1, - 1), (1, - 1), (1, 1), (- 1, 1)] :: (int \<times> int) list"
  have sz32: "?sz < 2 ^ 32" using small by (rule less_trans) simp
  have el: "cellIndex ?sz r c = treeElement t (r, c)" "inElementRange (deletedTrees t) (cellIndex ?sz r c)"
    if "r < ?sz" "c < ?sz" for r c
  proof -
    note a = cellIndex_small[OF that small]
    show "cellIndex ?sz r c = treeElement t (r, c)" using a(1) by (simp add: treeElement_def)
    have "\<not> int (r * ?sz + c + 1) < 0" by (simp only: of_nat_less_0_iff not_False_eq_True)
    moreover have "\<not> ?sz * ?sz + 1 \<le> r * ?sz + c + 1" using a(2) by simp
    ultimately show "inElementRange (deletedTrees t) (cellIndex ?sz r c)"
      unfolding inElementRange_def a(1) len nat_int by blast
  qed
  have z: "inElementRange (deletedTrees t) 0" using len by (simp add: inElementRange_def)
  have "\<exists>ds0. (if onBorder t row column then unionSets (deletedTrees t) 0 ?cs
               else Returned (deletedTrees t)) = Returned ds0 \<and>
               forestOk ds0 \<and> length ds0 = length (deletedTrees t)"
    using unionSets_returns[OF f z el(2)[OF rc]] f by auto
  then obtain ds0 where ds0: "(if onBorder t row column then unionSets (deletedTrees t) 0 ?cs
               else Returned (deletedTrees t)) = Returned ds0"
      "forestOk ds0" "length ds0 = length (deletedTrees t)" by blast
  have rg: "inElementRange ds0 x \<longleftrightarrow> inElementRange (deletedTrees t) x" for x
    using ds0(3) by (simp add: inElementRange_def)
  have j: "joinDeleted t row column = foldR (joinDiagonal t row column) ?offs ds0"
    unfolding joinDeleted_def ds0(1) offsets_lists by simp
  have inr: "\<forall>off \<in> set ?offs. ?P off \<longrightarrow> inElementRange ds0 (?idx off)"
    using el(2) rg inGrid_nat by auto
  have "?idx off = treeElement t (?pos off)" if "?P off" for off
    using that el(1) inGrid_nat by (cases off) auto
  then have "map ?idx (filter ?P xs) = map (treeElement t) (map ?pos (filter ?P xs))" for xs
    by (induction xs) simp_all
  then have "map ?idx (filter ?P ?offs) = map (treeElement t) (map ?pos (filter ?P ?offs))" .
  also have "map ?pos (filter ?P ?offs) = cellsIn t Deleted (diagonalNeighbors t row column)"
    unfolding diagonalNeighbors_def by (rule code_neighbors[OF rc sz32]) simp
  finally have N: "map ?idx (filter ?P ?offs) =
      map (treeElement t) (cellsIn t Deleted (diagonalNeighbors t row column))" .
  note fold = joinDiagonal_fold[OF ds0(2), of t row column ?offs, unfolded N el(1)[OF rc]]
  have b: "(if onOuterRing t row column
            then unionSets (deletedTrees t) 0 (treeElement t (row, column))
            else Returned (deletedTrees t)) = Returned ds0"
    using ds0(1) unfolding onBorder_iff[OF rc(1) sz32] el(1)[OF rc] .
  have c: "inElementRange ds0 (treeElement t (row, column))"
    using el[OF rc] rg by simp
  have i: "\<forall>off \<in> set ?offs. ?P off \<longrightarrow> inElementRange ds0 (?idx off)" by (rule inr)
  from fold[OF c i] j b show ?thesis by (intro exI[of _ ds0]) auto
qed

lemma foldR_same:
  assumes "J s" "\<And>x s. x \<in> set xs \<Longrightarrow> J s \<Longrightarrow> f x s = g x s"
    "\<And>x s s'. x \<in> set xs \<Longrightarrow> J s \<Longrightarrow> g x s = Returned s' \<Longrightarrow> J s'"
  shows "foldR f xs s = foldR g xs s"
  using assms
proof (induction xs arbitrary: s)
  case Nil
  then show ?case by simp
next
  case (Cons x xs)
  have 1: "f x s = g x s" using Cons.prems by simp
  have "foldR f xs s' = foldR g xs s'" if "g x s = Returned s'" for s'
  proof (rule Cons.IH)
    show "J s'" using Cons.prems(3)[of x s s'] Cons.prems(1) that by simp
    show "\<And>y s. y \<in> set xs \<Longrightarrow> J s \<Longrightarrow> f y s = g y s" using Cons.prems(2) by simp
    show "\<And>y s s'. y \<in> set xs \<Longrightarrow> J s \<Longrightarrow> g y s = Returned s' \<Longrightarrow> J s'"
      using Cons.prems(3) by (meson list.set_intros(2))
  qed
  then show ?case unfolding foldR.simps 1 by (cases "g x s") auto
qed

lemma cascade_neighbors:
  assumes rc: "row < size_tab t" "column < size_tab t" and sz: "size_tab t < 2 ^ 32"
    and offs: "\<forall>(dr, dc) \<in> set offs. (dr = - 1 \<or> dr = 0 \<or> dr = 1) \<and> (dc = - 1 \<or> dc = 0 \<or> dc = 1)"
  shows "wellFormed t1 \<Longrightarrow> size_tab t1 = size_tab t \<Longrightarrow>
     foldR (\<lambda>(rOffs, cOffs) t'.
             let r = uadd row rOffs; c = uadd column cOffs
             in if inGrid t' r c \<and> stateAt t' (nat r) (nat c) = Unknown
                then finalizeCell n t' (nat r) (nat c)
                else Returned t') offs t1
     = finalizeNeighbors n (neighborsAt t row column offs) t1"
  using offs
proof (induction offs arbitrary: t1)
  case Nil
  then show ?case by (simp add: finalizeNeighbors_def neighborsAt_def)
next
  case (Cons off offs)
  obtain dr dc where off: "off = (dr, dc)" by (cases off)
  from Cons.prems have d: "dr = - 1 \<or> dr = 0 \<or> dr = 1" "dc = - 1 \<or> dc = 0 \<or> dc = 1"
    by (auto simp: off)
  note r = uadd_step[OF rc(1) sz d(1)] and c = uadd_step[OF rc(2) sz d(2)]
  let ?in = "0 \<le> int row + dr \<and> int row + dr < int (size_tab t) \<and>
             0 \<le> int column + dc \<and> int column + dc < int (size_tab t)"
  let ?step = "\<lambda>(rOffs, cOffs) t'.
             let r = uadd row rOffs; c = uadd column cOffs
             in if inGrid t' r c \<and> stateAt t' (nat r) (nat c) = Unknown
                then finalizeCell n t' (nat r) (nat c)
                else Returned t'"
  have g: "inGrid t1 (uadd row dr) (uadd column dc) \<longleftrightarrow> ?in"
    using r(1,2) c(1,2) Cons.prems(2) by (auto simp: inGrid_def)
  have e: "uadd row dr = int row + dr" "uadd column dc = int column + dc" if ?in
    using that r(3) c(3) by auto
  have IH: "foldR ?step offs t2 = finalizeNeighbors n (neighborsAt t row column offs) t2"
    if "wellFormed t2" "size_tab t2 = size_tab t" for t2
    using that Cons.prems(3) by (intro Cons.IH) auto
  show ?case
  proof (cases ?in)
    case False
    then have "?step off t1 = Returned t1" using g by (auto simp: off Let_def)
    then have "foldR ?step (off # offs) t1 = foldR ?step offs t1" by simp
    moreover have "neighborsAt t row column (off # offs) = neighborsAt t row column offs"
      using False by (simp add: neighborsAt_def off)
    ultimately show ?thesis using IH[OF Cons.prems(1,2)] by simp
  next
    case True
    let ?r = "nat (int row + dr)" and ?c = "nat (int column + dc)"
    let ?X = "if stateAt t1 ?r ?c = Unknown then finalizeCell n t1 ?r ?c else Returned t1"
    have rc': "?r < size_tab t1" "?c < size_tab t1" using True Cons.prems(2) by auto
    have s: "?step off t1 = ?X" using g e True by (simp add: off Let_def)
    have nb: "neighborsAt t row column (off # offs) = (?r, ?c) # neighborsAt t row column offs"
      using True by (simp add: neighborsAt_def off)
    have X: "wellFormed t2 \<and> size_tab t2 = size_tab t" if "?X = Returned t2" for t2
    proof (cases "stateAt t1 ?r ?c = Unknown")
      case False
      with that Cons.prems(1,2) show ?thesis by simp
    next
      case True
      with that have "finalizeCell n t1 ?r ?c = Returned t2" by simp
      with cascadeSpecD[OF conjunct1[OF cascade_spec] Cons.prems(1) rc', of n]
      show ?thesis using Cons.prems(2) by simp
    qed
    have fn: "finalizeNeighbors n ps =
        foldR (\<lambda>(r, c) t'. if stateAt t' r c = Unknown then finalizeCell n t' r c
                            else Returned t') ps" for ps
      by (rule ext) (simp add: finalizeNeighbors_def)
    have "bindR ?X (foldR ?step offs) =
          bindR ?X (finalizeNeighbors n (neighborsAt t row column offs))"
      using X IH by (cases ?X) auto
    then show ?thesis unfolding nb fn foldR.simps s by simp
  qed
qed

lemma newTable_boardChain: "newTable [[1, 2, 3], [2, 3, 2], [3, 1, 1]] = Returned boardChain"
  by code_simp

lemma deletes_boardRing:
  "bindR (bindR (newTable [[1, 2, 3], [2, 3, 1], [3, 1, 2]]) (\<lambda>t. deleteCell 3 t 0 0))
     (\<lambda>t. deleteCell 3 t 0 2) = Returned boardRing"
  by code_simp

lemma wellFormed_boardRing: "wellFormed boardRing"
proof -
  let ?m = "[[1, 2, 3], [2, 3, 1], [3, 1, 2]]"
  from deletes_boardRing obtain t0 t1 where t0: "newTable ?m = Returned t0"
    and t1: "deleteCell 3 t0 0 0 = Returned t1" and t2: "deleteCell 3 t1 0 2 = Returned boardRing"
    by (cases "newTable ?m"; cases "bindR (newTable ?m) (\<lambda>t. deleteCell 3 t 0 0)") auto
  have r0: "reachable t0" using t0 by (rule reachable.fresh) simp
  have s0: "size_tab t0 = 3" using newTable_wellFormed(2)[OF t0] by simp
  have r1: "reachable t1" using reachable.delete[OF r0 _ _ t1] s0 by simp
  have "size_tab t1 = 3"
    using cascade_returned[of t0 0 0 3 t1] reachable_wellFormed[OF r0] s0 t1 by simp
  then have "reachable boardRing" using reachable.delete[OF r1 _ _ t2] by simp
  then show ?thesis by (rule reachable_wellFormed)
qed

text \<open>
  C4 (as the code has it).  On the fresh board 1 2 3 / 2 3 2 / 3 1 1 no cell is \<open>Deleted\<close>,
  and \<^verbatim>\<open>deleteCell(1, 1)\<close> raises ``deleted neighbor found'' all the same, at every
  depth bound from 3 on: it deletes (1, 1) and finalizes (1, 2), which deletes (1, 0), the
  other 2 of row 1, and (1, 0) has the \<open>Deleted\<close> neighbour (1, 1).
\<close>

theorem deleteCell_nested_deleted_neighbor:
  "\<forall>k. case newTable [[1, 2, 3], [2, 3, 2], [3, 1, 1]] of
          Returned t \<Rightarrow>
            stateAt t 1 1 = Unknown \<and>
            cellsIn t Deleted (positions t) = [] \<and>
            \<not> hasDeletedNeighbor t 1 1 \<and>
            deleteCell (3 + k) t 1 1 =
              Raised (NoSolutionExistsException ''deleted neighbor found'')
        | Raised e \<Rightarrow> False
        | Diverged \<Rightarrow> False"
proof
  fix k
  have 1: "deleteCell 3 boardChain 1 1 =
      Raised (NoSolutionExistsException ''deleted neighbor found'')" by code_simp
  then have "deleteCell (3 + k) boardChain 1 1 =
      Raised (NoSolutionExistsException ''deleted neighbor found'')"
    using deleteCell_deeper[of 3 boardChain 1 1 k] by simp
  moreover have "stateAt boardChain 1 1 = Unknown" "cellsIn boardChain Deleted (positions boardChain) = []"
    "\<not> hasDeletedNeighbor boardChain 1 1" by code_simp+
  ultimately show "case newTable [[1, 2, 3], [2, 3, 2], [3, 1, 1]] of
          Returned t \<Rightarrow>
            stateAt t 1 1 = Unknown \<and>
            cellsIn t Deleted (positions t) = [] \<and>
            \<not> hasDeletedNeighbor t 1 1 \<and>
            deleteCell (3 + k) t 1 1 =
              Raised (NoSolutionExistsException ''deleted neighbor found'')
        | Raised e \<Rightarrow> False
        | Diverged \<Rightarrow> False"
    unfolding newTable_boardChain by simp
qed

text \<open>
  C4 (amended).  \<^verbatim>\<open>deleteCell\<close> on an \<open>Unknown\<close> cell of a well-formed board.  If one of the
  cell's orthogonal neighbours inside the grid is \<open>Deleted\<close>, it raises ``deleted neighbor
  found''.  Otherwise let \<open>ds0\<close> be \<^verbatim>\<open>deletedTrees\<close> after the union of the cell with element
  0, made when the cell is on the outer ring.  If the cell and its \<open>Deleted\<close> diagonal
  neighbours inside the grid do not all have different roots in \<open>ds0\<close>, it raises ``circular
  neighbors found''.  If they do, the diagonal loop returns, the cell becomes \<open>Deleted\<close>, and
  the result of \<^verbatim>\<open>deleteCell\<close> is that of finalizing, in the order right, up, left, down, the
  orthogonal neighbours inside the grid that are \<open>Unknown\<close> at their turn, whatever that
  returns or raises.
\<close>

theorem deleteCell_own_checks:
  assumes "wellFormed t" "length (deletedTrees t) = size_tab t * size_tab t + 1"
    and "size_tab t < 2 ^ 15" "row < size_tab t" "column < size_tab t"
    and "stateAt t row column = Unknown"
  shows "if cellsIn t Deleted (orthogonalNeighbors t row column) \<noteq> []
         then deleteCell (Suc n) t row column =
                Raised (NoSolutionExistsException ''deleted neighbor found'')
         else \<exists>ds0.
           (if onOuterRing t row column
            then unionSets (deletedTrees t) 0 (treeElement t (row, column))
            else Returned (deletedTrees t)) = Returned ds0 \<and>
           (if distinct (map (findRoot ds0) (treeElement t (row, column) #
                   map (treeElement t) (cellsIn t Deleted (diagonalNeighbors t row column))))
            then \<exists>ds. joinDeleted t row column = Returned ds \<and>
                   deleteCell (Suc n) t row column =
                     finalizeNeighbors n (neighborsAt t row column [(0, 1), (- 1, 0), (0, - 1), (1, 0)])
                       (leaveUnknown (t\<lparr>deletedTrees := ds\<rparr>) row column Deleted)
            else deleteCell (Suc n) t row column =
                   Raised (NoSolutionExistsException ''circular neighbors found''))"
proof (cases "cellsIn t Deleted (orthogonalNeighbors t row column) \<noteq> []")
  case True
  have sz32: "size_tab t < 2 ^ 32" using assms(3) by (rule less_trans) simp
  from True have "hasDeletedNeighbor t row column"
    using hasDeletedNeighbor_iff[OF assms(4,5) sz32] by simp
  then have "deleteCell (Suc n) t row column =
      Raised (NoSolutionExistsException ''deleted neighbor found'')"
    using assms(6) by (simp add: deleteCellBody_def)
  then show ?thesis unfolding if_P[OF True] .
next
  case False
  have sz32: "size_tab t < 2 ^ 32" using assms(3) by (rule less_trans) simp
  let ?step = "\<lambda>(rOffs, cOffs) t'.
             let r = uadd row rOffs; c = uadd column cOffs
             in if inGrid t' r c \<and> stateAt t' (nat r) (nat c) = Unknown
                then finalizeCell n t' (nat r) (nat c)
                else Returned t'"
  let ?nb = "neighborsAt t row column [(0, 1), (- 1, 0), (0, - 1), (1, 0)]"
  from False have "\<not> hasDeletedNeighbor t row column"
    using hasDeletedNeighbor_iff[OF assms(4,5) sz32] by simp
  then have d: "deleteCell (Suc n) t row column =
      bindR (joinDeleted t row column) (\<lambda>ds.
        foldR ?step (offsets (0, 1)) (leaveUnknown (t\<lparr>deletedTrees := ds\<rparr>) row column Deleted))"
    using assms(6) by (simp add: deleteCellBody_def)
  have f: "forestOk (deletedTrees t)" using assms(1) by (simp add: wellFormed_def)
  have c: "foldR ?step (offsets (0, 1)) (leaveUnknown (t\<lparr>deletedTrees := ds\<rparr>) row column Deleted) =
           finalizeNeighbors n ?nb (leaveUnknown (t\<lparr>deletedTrees := ds\<rparr>) row column Deleted)"
    if "forestOk ds" for ds
  proof -
    let ?t = "t\<lparr>deletedTrees := ds\<rparr>"
    have wf: "wellFormed ?t" using assms(1) that by (rule wellFormed_deletedTrees)
    have st: "stateAt ?t row column = Unknown" using assms(6) by (simp add: stateAt_def)
    have "wellFormed (leaveUnknown ?t row column Deleted)"
         "size_tab (leaveUnknown ?t row column Deleted) = size_tab t"
      using wellFormed_leaveUnknown(1,2)[OF wf _ _ st, of Deleted] assms(4,5) by simp_all
    then show ?thesis
      unfolding offsets_lists by (intro cascade_neighbors[OF assms(4,5) sz32]) simp_all
  qed
  from joinDeleted_checks[OF f assms(2,3,4,5)] obtain ds0 where ds0:
    "(if onOuterRing t row column
      then unionSets (deletedTrees t) 0 (treeElement t (row, column))
      else Returned (deletedTrees t)) = Returned ds0"
    "if distinct (map (findRoot ds0) (treeElement t (row, column) #
            map (treeElement t) (cellsIn t Deleted (diagonalNeighbors t row column))))
     then \<exists>ds. joinDeleted t row column = Returned ds \<and> forestOk ds
     else joinDeleted t row column =
            Raised (NoSolutionExistsException ''circular neighbors found'')"
    by blast
  show ?thesis
  proof (cases "distinct (map (findRoot ds0) (treeElement t (row, column) #
            map (treeElement t) (cellsIn t Deleted (diagonalNeighbors t row column))))")
    case True
    from ds0(2)[unfolded if_P[OF True]] obtain ds where
      ds: "joinDeleted t row column = Returned ds" "forestOk ds"
      by blast
    have "deleteCell (Suc n) t row column =
        finalizeNeighbors n ?nb (leaveUnknown (t\<lparr>deletedTrees := ds\<rparr>) row column Deleted)"
      unfolding d ds(1) using c[OF ds(2)] by simp
    with ds(1) have "\<exists>ds. joinDeleted t row column = Returned ds \<and>
        deleteCell (Suc n) t row column =
          finalizeNeighbors n ?nb (leaveUnknown (t\<lparr>deletedTrees := ds\<rparr>) row column Deleted)"
      by blast
    then have "if distinct (map (findRoot ds0) (treeElement t (row, column) #
            map (treeElement t) (cellsIn t Deleted (diagonalNeighbors t row column))))
        then \<exists>ds. joinDeleted t row column = Returned ds \<and>
               deleteCell (Suc n) t row column =
                 finalizeNeighbors n ?nb (leaveUnknown (t\<lparr>deletedTrees := ds\<rparr>) row column Deleted)
        else deleteCell (Suc n) t row column =
               Raised (NoSolutionExistsException ''circular neighbors found'')"
      unfolding if_P[OF True] .
    with ds0(1) show ?thesis unfolding if_not_P[OF False] by (intro exI[of _ ds0] conjI)
  next
    case nd: False
    from ds0(2)[unfolded if_not_P[OF nd]] have "joinDeleted t row column =
        Raised (NoSolutionExistsException ''circular neighbors found'')" .
    then have "deleteCell (Suc n) t row column =
        Raised (NoSolutionExistsException ''circular neighbors found'')"
      unfolding d by simp
    then have "if distinct (map (findRoot ds0) (treeElement t (row, column) #
            map (treeElement t) (cellsIn t Deleted (diagonalNeighbors t row column))))
        then \<exists>ds. joinDeleted t row column = Returned ds \<and>
               deleteCell (Suc n) t row column =
                 finalizeNeighbors n ?nb (leaveUnknown (t\<lparr>deletedTrees := ds\<rparr>) row column Deleted)
        else deleteCell (Suc n) t row column =
               Raised (NoSolutionExistsException ''circular neighbors found'')"
      unfolding if_not_P[OF nd] .
    with ds0(1) show ?thesis unfolding if_not_P[OF False] by (intro exI[of _ ds0] conjI)
  qed
qed

theorem deleteCell_own_checks_witness:
  "(cellsIn boardRing Deleted (orthogonalNeighbors boardRing 1 1) = [] \<and>
    cellsIn boardRing Deleted (diagonalNeighbors boardRing 1 1) = [(0, 0), (0, 2)] \<and>
    map (findRoot (deletedTrees boardRing)) (map (treeElement boardRing) [(1, 1), (0, 0), (0, 2)])
      = [Some 5, Some 1, Some 1] \<and>
    deleteCell (Suc 0) boardRing 1 1 =
      Raised (NoSolutionExistsException ''circular neighbors found'')) \<and>
   (cellsIn (leaveUnknown boardChain 1 1 Deleted) Deleted
      (orthogonalNeighbors (leaveUnknown boardChain 1 1 Deleted) 1 0) = [(1, 1)] \<and>
    deleteCell (Suc 0) (leaveUnknown boardChain 1 1 Deleted) 1 0 =
      Raised (NoSolutionExistsException ''deleted neighbor found'')) \<and>
   (cellsIn boardChain Deleted (orthogonalNeighbors boardChain 1 1) = [] \<and>
    cellsIn boardChain Deleted (diagonalNeighbors boardChain 1 1) = [] \<and>
    (\<exists>ds. joinDeleted boardChain 1 1 = Returned ds \<and>
       deleteCell (Suc 2) boardChain 1 1 =
         finalizeNeighbors 2 [(1, 2), (0, 1), (1, 0), (2, 1)]
           (leaveUnknown (boardChain\<lparr>deletedTrees := ds\<rparr>) 1 1 Deleted)) \<and>
    deleteCell (Suc 2) boardChain 1 1 =
      Raised (NoSolutionExistsException ''deleted neighbor found''))"
proof -
  let ?mid = "leaveUnknown boardChain 1 1 Deleted"
  have wfC: "wellFormed boardChain"
    using newTable_wellFormed(1)[OF newTable_boardChain] by simp
  have hC: "length (deletedTrees boardChain) = size_tab boardChain * size_tab boardChain + 1"
    "size_tab boardChain < 2 ^ 15" "1 < size_tab boardChain" "0 < size_tab boardChain"
    by (simp_all add: boardChain_def)
  have sC: "stateAt boardChain 1 1 = Unknown" by code_simp
  have wfM: "wellFormed ?mid"
    using wellFormed_leaveUnknown(1)[OF wfC hC(3) hC(3) sC, of Deleted] by simp
  have hM: "length (deletedTrees ?mid) = size_tab ?mid * size_tab ?mid + 1"
    "size_tab ?mid < 2 ^ 15" "1 < size_tab ?mid" "0 < size_tab ?mid"
    using hC by (simp_all add: leaveUnknown_fields)
  have sM: "stateAt ?mid 1 0 = Unknown" by code_simp
  have hR: "length (deletedTrees boardRing) = size_tab boardRing * size_tab boardRing + 1"
    "size_tab boardRing < 2 ^ 15" "1 < size_tab boardRing"
    by (simp_all add: boardRing_def)
  have sR: "stateAt boardRing 1 1 = Unknown" by code_simp

  have oR: "cellsIn boardRing Deleted (orthogonalNeighbors boardRing 1 1) = []" by code_simp
  have dR: "cellsIn boardRing Deleted (diagonalNeighbors boardRing 1 1) = [(0, 0), (0, 2)]"
    by code_simp
  have rR: "map (findRoot (deletedTrees boardRing)) (map (treeElement boardRing) [(1, 1), (0, 0), (0, 2)])
      = [Some 5, Some 1, Some 1]" by code_simp
  have ringR: "\<not> onOuterRing boardRing 1 1" by code_simp
  have ndR: "\<not> distinct (map (findRoot (deletedTrees boardRing)) (treeElement boardRing (1, 1) #
      map (treeElement boardRing) (cellsIn boardRing Deleted (diagonalNeighbors boardRing 1 1))))"
    by code_simp
  have oR': "\<not> cellsIn boardRing Deleted (orthogonalNeighbors boardRing 1 1) \<noteq> []"
    using oR by simp
  from deleteCell_own_checks[OF wellFormed_boardRing hR(1,2,3,3) sR, of 0,
      unfolded if_not_P[OF oR'] if_not_P[OF ringR]]
  obtain ds0 where "Returned (deletedTrees boardRing) = Returned ds0"
    and 2: "if distinct (map (findRoot ds0) (treeElement boardRing (1, 1) #
              map (treeElement boardRing) (cellsIn boardRing Deleted (diagonalNeighbors boardRing 1 1))))
            then \<exists>ds. joinDeleted boardRing 1 1 = Returned ds \<and>
                   deleteCell (Suc 0) boardRing 1 1 =
                     finalizeNeighbors 0 (neighborsAt boardRing 1 1 [(0, 1), (- 1, 0), (0, - 1), (1, 0)])
                       (leaveUnknown (boardRing\<lparr>deletedTrees := ds\<rparr>) 1 1 Deleted)
            else deleteCell (Suc 0) boardRing 1 1 =
                   Raised (NoSolutionExistsException ''circular neighbors found'')"
    by blast
  then have "ds0 = deletedTrees boardRing" by simp
  from 2[unfolded this if_not_P[OF ndR]]
  have A: "deleteCell (Suc 0) boardRing 1 1 =
      Raised (NoSolutionExistsException ''circular neighbors found'')" .

  have oM: "cellsIn ?mid Deleted (orthogonalNeighbors ?mid 1 0) = [(1, 1)]" by code_simp
  then have oM': "cellsIn ?mid Deleted (orthogonalNeighbors ?mid 1 0) \<noteq> []" by simp
  from deleteCell_own_checks[OF wfM hM(1,2,3,4) sM, of 0, unfolded if_P[OF oM']]
  have B: "deleteCell (Suc 0) ?mid 1 0 =
      Raised (NoSolutionExistsException ''deleted neighbor found'')" .

  have oC: "cellsIn boardChain Deleted (orthogonalNeighbors boardChain 1 1) = []" by code_simp
  have dC: "cellsIn boardChain Deleted (diagonalNeighbors boardChain 1 1) = []" by code_simp
  have nC: "neighborsAt boardChain 1 1 [(0, 1), (- 1, 0), (0, - 1), (1, 0)] =
      [(1, 2), (0, 1), (1, 0), (2, 1)]" by code_simp
  have ringC: "\<not> onOuterRing boardChain 1 1" by code_simp
  have oC': "\<not> cellsIn boardChain Deleted (orthogonalNeighbors boardChain 1 1) \<noteq> []"
    using oC by simp
  from deleteCell_own_checks[OF wfC hC(1,2,3,3) sC, of 2,
      unfolded if_not_P[OF oC'] if_not_P[OF ringC] dC nC]
  have C: "\<exists>ds. joinDeleted boardChain 1 1 = Returned ds \<and>
       deleteCell (Suc 2) boardChain 1 1 =
         finalizeNeighbors 2 [(1, 2), (0, 1), (1, 0), (2, 1)]
           (leaveUnknown (boardChain\<lparr>deletedTrees := ds\<rparr>) 1 1 Deleted)"
    by auto
  have C': "deleteCell (Suc 2) boardChain 1 1 =
      Raised (NoSolutionExistsException ''deleted neighbor found'')" by code_simp
  from oR dR rR A oM B oC dC C C' show ?thesis by (intro conjI)
qed

subsection \<open>Boards with a repeated Final value\<close>

text \<open>
  C5 (the code at a failing input).  On the fresh board 1 1 3 / 3 2 1 / 1 2 3,
  \<^verbatim>\<open>finalizeCell(0, 0)\<close> returns, at every depth bound from 5 on, and leaves the cells
  (0, 0) and (0, 1), both of value 1, \<open>Final\<close> in row 0.  The column scan deletes (2, 0), whose
  cascade finalizes (0, 1); that takes \<^verbatim>\<open>rowCounts[0][1]\<close> to 0, so the guard of the row scan
  fails and the \<open>Final\<close> cell (0, 1) is never looked at.
\<close>

theorem finalizeCell_returns_repeated_final:
  "(case bindR (newTable [[1, 1, 3], [3, 2, 1], [1, 2, 3]]) (\<lambda>t. finalizeCell (5 + k) t 0 0) of
      Returned t \<Rightarrow>
        map (map getState) (cells t) =
          [[Final, Final, Unknown], [Final, Deleted, Final], [Deleted, Final, Unknown]] \<and>
        map (map getValue) (cells t) = [[1, 1, 3], [3, 2, 1], [1, 2, 3]] \<and>
        rowCounts t ! 0 ! 1 = 0 \<and>
        \<not> noRepeatedFinal t
    | Raised e \<Rightarrow> False
    | Diverged \<Rightarrow> False)"
proof -
  let ?m = "[[1, 1, 3], [3, 2, 1], [1, 2, 3]]"
  let ?P = "\<lambda>t. map (map getState) (cells t) =
          [[Final, Final, Unknown], [Final, Deleted, Final], [Deleted, Final, Unknown]] \<and>
        map (map getValue) (cells t) = [[1, 1, 3], [3, 2, 1], [1, 2, 3]] \<and>
        rowCounts t ! 0 ! 1 = 0 \<and>
        \<not> noRepeatedFinal t"
  have ev: "(case bindR (newTable ?m) (\<lambda>t. finalizeCell 5 t 0 0) of
      Returned t \<Rightarrow> ?P t | Raised e \<Rightarrow> False | Diverged \<Rightarrow> False)"
    by code_simp
  then obtain t0 t1 where t0: "newTable ?m = Returned t0"
    and t1: "finalizeCell 5 t0 0 0 = Returned t1" and P: "?P t1"
    by (cases "newTable ?m"; cases "bindR (newTable ?m) (\<lambda>t. finalizeCell 5 t 0 0)") auto
  have "finalizeCell (5 + k) t0 0 0 = Returned t1"
    using finalizeCell_deeper[of 5 t0 0 0 k] t1 by simp
  then have "bindR (newTable ?m) (\<lambda>t. finalizeCell (5 + k) t 0 0) = Returned t1"
    unfolding t0 bindR.simps .
  then show ?thesis using P by (simp only: result.case simp_thms)
qed

text \<open>
  C1 (the code at a failing input).  For the matrix with rows \<open>1 3 1\<close>, \<open>1 2 1\<close>, \<open>1 1 1\<close>
  \<open>solve\<close> returns, at every depth bound from 9 on, a board whose middle row is \<open>Final 1\<close>,
  \<open>Final 2\<close>, \<open>Final 1\<close>: the value 1 stands twice among the \<open>Final\<close> cells of that row.
\<close>

theorem solve_returns_repeated_final:
  "(case bindR (newTable [[1, 3, 1], [1, 2, 1], [1, 1, 1]]) (solve (9 + k)) of
      Returned t \<Rightarrow>
        isSolved t \<and>
        map (map getState) (cells t) =
          [[Deleted, Final, Deleted], [Final, Final, Final], [Deleted, Final, Deleted]] \<and>
        map (map getValue) (cells t) = [[1, 3, 1], [1, 2, 1], [1, 1, 1]] \<and>
        \<not> noRepeatedFinal t
    | Raised e \<Rightarrow> False
    | Diverged \<Rightarrow> False)"
proof -
  let ?P = "\<lambda>t. isSolved t \<and>
        map (map getState) (cells t) =
          [[Deleted, Final, Deleted], [Final, Final, Final], [Deleted, Final, Deleted]] \<and>
        map (map getValue) (cells t) = [[1, 3, 1], [1, 2, 1], [1, 1, 1]] \<and>
        \<not> noRepeatedFinal t"
  have ev: "(case solve 9 board131 of
      Returned t \<Rightarrow> ?P t | Raised e \<Rightarrow> False | Diverged \<Rightarrow> False)"
    by code_simp
  then obtain t1 where t1: "solve 9 board131 = Returned t1" and P: "?P t1"
    by (cases "solve 9 board131") auto
  have "solve (9 + k) board131 = Returned t1"
    using solve_deeper[of 9 board131 k] t1 by simp
  then have "bindR (newTable [[1, 3, 1], [1, 2, 1], [1, 1, 1]]) (solve (9 + k)) = Returned t1"
    unfolding newTable_board131 bindR.simps .
  then show ?thesis using P by (simp only: result.case simp_thms)
qed

end
